theory Spec2Isabelle
  imports Main "HOL-Library.Word"
begin

section \<open>NiimbotBluetoothClient: the session and command-correlation layer\<close>

text \<open>
  A shallow embedding of \<^verbatim>\<open>src/client/bluetooth_impl.ts\<close>. The client is a record of
  its fields; every asynchronous call is a task with a phase (the await it is suspended at);
  one function, \<open>step\<close>, moves the client by one action: a call, or the completion of
  something a task awaits (the sleep, the transport write, an inbound notification, a timer,
  a transport disconnect). The scheduling is JavaScript's: one thread, each continuation
  runs to its next await without interleaving.
\<close>

subsection \<open>Data\<close>

type_synonym byte = "8 word"
type_synonym tid = nat

text \<open>
  Modelled from the spec: class \<^verbatim>\<open>NiimbotPacket\<close> (\<^verbatim>\<open>../packets/packet\<close>) is not in the
  file; the spec's data model gives it a command identifier, a payload, the flag \<open>oneWay\<close>
  and the identifiers \<open>validResponseIds\<close>.
\<close>

record NiimbotPacket =
  command :: nat
  payload :: "byte list"
  oneWay :: bool
  validResponseIds :: "nat list"

record ConnectionInfo =
  deviceName :: "string option"
  result :: nat

text \<open>
  What the file imports and does not define is a parameter: the packet codec, the
  constructor \<^verbatim>\<open>new NiimbotPacket(command, data)\<close>, membership in the enum
  \<^verbatim>\<open>ResponseCommandId\<close>, the constants \<^verbatim>\<open>ResponseCommandId.Invalid\<close> and
  \<^verbatim>\<open>ConnectResult.FirmwareErrors\<close>, and the formatters of \<^verbatim>\<open>Utils\<close>.
  \<open>fromBytes\<close> is \<open>None\<close> where \<^verbatim>\<open>NiimbotPacket.fromBytes\<close> throws.
\<close>

record externals =
  fromBytes :: "byte list \<Rightarrow> NiimbotPacket option"
  toBytes :: "NiimbotPacket \<Rightarrow> byte list"
  newPacket :: "nat \<Rightarrow> byte list \<Rightarrow> NiimbotPacket"
  inResponseCommandId :: "nat \<Rightarrow> bool"
  Invalid :: nat
  FirmwareErrors :: nat
  bufToHex :: "nat list \<Rightarrow> string \<Rightarrow> string"
  numberToHex :: "nat \<Rightarrow> string"

text \<open>
  The Web Bluetooth objects, as far as the client reads them. A promise of the transport
  that may reject is an \<open>option\<close> (\<open>None\<close>: it rejects) or a flag (\<open>False\<close>: it rejects).
\<close>

record BluetoothRemoteGATTCharacteristic =
  c_uuid :: string
  notify :: bool
  writeWithoutResponse :: bool
  startNotifications :: bool

record BluetoothRemoteGATTService =
  s_uuid :: string
  getCharacteristics :: "BluetoothRemoteGATTCharacteristic list option"

record BluetoothRemoteGATTServer =
  gatt_connect :: bool
  getPrimaryServices :: "BluetoothRemoteGATTService list option"

record BluetoothDevice =
  dev_id :: nat
  dev_name :: "string option"
  gatt :: "BluetoothRemoteGATTServer option"

text \<open>
  \<open>Error m\<close> is \<^verbatim>\<open>new Error(m)\<close>; \<open>TypeError\<close> is the property access on
  \<^verbatim>\<open>undefined\<close>; \<open>TransportError\<close> is a rejected promise of the transport.
\<close>

datatype error = Error string | TypeError | TransportError

datatype event =
    ConnectEvent ConnectionInfo
  | DisconnectEvent
  | PacketReceivedEvent NiimbotPacket
  | RawPacketReceivedEvent "byte list"
  | RawPacketSentEvent "byte list"

text \<open>What the client does to the outside, in the order it does it.\<close>

datatype effect =
    Dispatch event
  | StopHeartbeat
  | GattDisconnect
  | WriteValueWithoutResponse "byte list"
  | ConsoleLog string
  | ConsoleWarn string
  | ConsoleError string
  | ConsoleErrorThrown

text \<open>
  The calls of the public surface. \<open>Connect req\<close> carries what
  \<^verbatim>\<open>navigator.bluetooth.requestDevice\<close> answers (\<open>None\<close>: it rejects).
\<close>

datatype call =
    SendPacketWaitResponse NiimbotPacket "nat option"
  | SendRaw "byte list" bool
  | Connect "BluetoothDevice option"

datatype outcome =
    Resolved NiimbotPacket
  | Returned
  | Established ConnectionInfo
  | Rejected error

text \<open>
  Where a call is suspended: in the queue of the mutex; holding the mutex it found free,
  before its callback has started (\<^verbatim>\<open>runExclusive\<close> awaits the acquisition first, so
  the code that follows the call runs before the callback); in \<^verbatim>\<open>Utils.sleep\<close> (until
  the given time); in the transport write; in the promise that waits for the response;
  between the assignment of the session fields and the end of the negotiation; or settled.
\<close>

datatype phase =
    Queued
  | Admitted
  | Sleeping nat
  | Writing
  | Awaiting
  | Negotiating BluetoothDevice
  | Done outcome

record client =
  gattServer :: "BluetoothRemoteGATTServer option"
  channel :: "BluetoothRemoteGATTCharacteristic option"
  info :: "string \<rightharpoonup> nat"
  packetIntervalMs :: nat
  holder :: "tid option"
  waiters :: "tid list"
  tasks :: "tid \<rightharpoonup> call \<times> phase"
  listeners :: "tid list"
  timers :: "tid \<rightharpoonup> nat"
  deviceListeners :: "nat list"
  now :: nat
  trace :: "effect list"

definition init :: "nat \<Rightarrow> client" where
  "init interval =
     \<lparr>gattServer = None, channel = None, info = Map.empty, packetIntervalMs = interval,
      holder = None, waiters = [], tasks = Map.empty, listeners = [], timers = Map.empty,
      deviceListeners = [], now = 0, trace = []\<rparr>"

definition emit :: "effect list \<Rightarrow> client \<Rightarrow> client" where
  "emit es s = s\<lparr>trace := trace s @ es\<rparr>"

subsection \<open>isConnected, disconnect and the disconnect listener\<close>

definition isConnected :: "client \<Rightarrow> bool" where
  "isConnected s = (gattServer s \<noteq> None \<and> channel s \<noteq> None)"

definition disconnect :: "client \<Rightarrow> client" where
  "disconnect s =
     (let s1 = emit [StopHeartbeat] s;
          s2 = (case gattServer s1 of None \<Rightarrow> s1 | Some g \<Rightarrow> emit [GattDisconnect] s1)
      in s2\<lparr>gattServer := None, channel := None, info := Map.empty\<rparr>)"

definition disconnectListener :: "nat \<Rightarrow> client \<Rightarrow> client" where
  "disconnectListener dev s =
     (emit [Dispatch DisconnectEvent] (s\<lparr>gattServer := None, channel := None, info := Map.empty\<rparr>))
       \<lparr>deviceListeners := remove1 dev (deviceListeners s)\<rparr>"

text \<open>The transport fires \<^verbatim>\<open>gattserverdisconnected\<close> at a device: every listener
  registered on it at that moment runs.\<close>

definition gattserverdisconnected :: "nat \<Rightarrow> client \<Rightarrow> client" where
  "gattserverdisconnected dev s =
     foldl (\<lambda>s' d. disconnectListener d s') s (filter (\<lambda>d. d = dev) (deviceListeners s))"

subsection \<open>The mutex and the shared send procedure\<close>

definition uses_mutex :: "call \<Rightarrow> bool" where
  "uses_mutex c =
     (case c of SendPacketWaitResponse p m \<Rightarrow> True | SendRaw d force \<Rightarrow> \<not> force
      | Connect r \<Rightarrow> False)"

text \<open>
  Modelled from the spec: \<^verbatim>\<open>sendPacket(packet, true)\<close> is a method of
  \<^verbatim>\<open>NiimbotAbstractClient\<close>, which is not in the file; by the spec the exchange
  transmits the packet's bytes through the raw send with the bypass flag.
\<close>

definition wire_bytes :: "externals \<Rightarrow> call \<Rightarrow> byte list" where
  "wire_bytes ext c =
     (case c of SendPacketWaitResponse p m \<Rightarrow> toBytes ext p | SendRaw d force \<Rightarrow> d
      | Connect r \<Rightarrow> [])"

definition set_phase :: "tid \<Rightarrow> phase \<Rightarrow> client \<Rightarrow> client" where
  "set_phase t ph s =
     (case tasks s t of None \<Rightarrow> s | Some (c, old) \<Rightarrow> s\<lparr>tasks := (tasks s)(t \<mapsto> (c, ph))\<rparr>)"

text \<open>The entry of the closure \<^verbatim>\<open>send\<close>: the channel check, then the sleep. The flag
  says whether the closure went on (\<open>False\<close>: it threw).\<close>

definition send_begin :: "tid \<Rightarrow> client \<Rightarrow> bool \<times> client" where
  "send_begin t s =
     (if channel s = None
      then (False, set_phase t (Done (Rejected (Error ''Channel is closed''))) s)
      else (True, set_phase t (Sleeping (now s + packetIntervalMs s)) s))"

text \<open>
  Modelled from the spec: \<^verbatim>\<open>Mutex\<close> comes from the package \<^verbatim>\<open>async-mutex\<close>; by the
  spec callers queue in arrival order, one critical section runs at a time, and a failure
  inside the section releases the lock. \<open>acquire_next ws\<close> is the release with the queue
  \<open>ws\<close>: the first waiter gets the lock and its callback starts; a callback that throws
  at once releases again. From the release to the start of the waiter's callback only
  promise continuations run, so no action falls in between; a caller that finds the mutex
  free is different, its own next statements run before its callback (phase \<open>Admitted\<close>).
\<close>

fun acquire_next :: "tid list \<Rightarrow> client \<Rightarrow> client" where
  "acquire_next [] s = s\<lparr>holder := None, waiters := []\<rparr>"
| "acquire_next (w # ws) s =
     (case send_begin w (s\<lparr>holder := Some w, waiters := ws\<rparr>) of
        (True, s') \<Rightarrow> s'
      | (False, s') \<Rightarrow> acquire_next ws s')"

text \<open>A call settles: its promise resolves or rejects, and \<^verbatim>\<open>runExclusive\<close> releases
  the mutex if the call went through it.\<close>

definition settle :: "tid \<Rightarrow> outcome \<Rightarrow> client \<Rightarrow> client" where
  "settle t out s =
     (case tasks s t of
        None \<Rightarrow> s
      | Some (c, old) \<Rightarrow>
          (let s' = s\<lparr>tasks := (tasks s)(t \<mapsto> (c, Done out))\<rparr>
           in if uses_mutex c then acquire_next (waiters s') s' else s'))"

subsection \<open>findSuitableBluetoothCharacteristic and connect\<close>

fun find_characteristic ::
  "BluetoothRemoteGATTCharacteristic list \<Rightarrow> BluetoothRemoteGATTCharacteristic option" where
  "find_characteristic [] = None"
| "find_characteristic (c # cs) =
     (if notify c \<and> writeWithoutResponse c then Some c else find_characteristic cs)"

fun find_in_services ::
  "BluetoothRemoteGATTService list \<Rightarrow> error + BluetoothRemoteGATTCharacteristic option" where
  "find_in_services [] = Inr None"
| "find_in_services (service # services) =
     (if length (s_uuid service) < 5 then find_in_services services
      else (case getCharacteristics service of
              None \<Rightarrow> Inl TransportError
            | Some characteristics \<Rightarrow>
                (case find_characteristic characteristics of
                   Some c \<Rightarrow> Inr (Some c)
                 | None \<Rightarrow> find_in_services services)))"

definition findSuitableBluetoothCharacteristic ::
  "BluetoothRemoteGATTServer \<Rightarrow> error + BluetoothRemoteGATTCharacteristic option" where
  "findSuitableBluetoothCharacteristic g =
     (case getPrimaryServices g of
        None \<Rightarrow> Inl TransportError
      | Some services \<Rightarrow> find_in_services services)"

text \<open>
  \<^verbatim>\<open>connect()\<close> up to the assignment of \<^verbatim>\<open>gattServer\<close> and \<^verbatim>\<open>channel\<close>, the
  transport's promises taken at their results. A call that gets through is left in the
  phase \<open>Negotiating\<close>, with the device it holds in its local variable.
\<close>

definition connect_link :: "tid \<Rightarrow> BluetoothDevice option \<Rightarrow> client \<Rightarrow> client" where
  "connect_link t req s =
     (let s1 = disconnect s in
      case req of
        None \<Rightarrow> settle t (Rejected TransportError) s1
      | Some device \<Rightarrow>
          (case gatt device of
             None \<Rightarrow>
               settle t (Rejected (Error ''Device has no Bluetooth Generic Attribute Profile'')) s1
           | Some g \<Rightarrow>
               (let s2 = s1\<lparr>deviceListeners := deviceListeners s1 @ [dev_id device]\<rparr> in
                if \<not> gatt_connect g then settle t (Rejected TransportError) s2
                else
                  (case findSuitableBluetoothCharacteristic g of
                     Inl e \<Rightarrow> settle t (Rejected e) s2
                   | Inr None \<Rightarrow>
                       settle t (Rejected (Error ''Suitable device characteristic not found''))
                         (emit [GattDisconnect] s2)
                   | Inr (Some ch) \<Rightarrow>
                       (let s3 = emit [ConsoleLog (''Found suitable characteristic '' @ c_uuid ch)] s2 in
                        if \<not> startNotifications ch then settle t (Rejected TransportError) s3
                        else set_phase t (Negotiating device)
                               (s3\<lparr>gattServer := Some g, channel := Some ch\<rparr>))))))"

text \<open>
  \<^verbatim>\<open>connect()\<close> from the end of the \<^verbatim>\<open>try\<close> block: \<open>threw\<close> says whether
  \<^verbatim>\<open>initialNegotiate\<close> or \<^verbatim>\<open>fetchPrinterInfo\<close> threw (the \<^verbatim>\<open>catch\<close> logs twice).
\<close>

definition connect_finish :: "externals \<Rightarrow> tid \<Rightarrow> bool \<Rightarrow> client \<Rightarrow> client" where
  "connect_finish ext t threw s =
     (case tasks s t of
        Some (c, Negotiating device) \<Rightarrow>
          (let s1 = (if threw
                     then emit [ConsoleError ''Unable to fetch printer info.'', ConsoleErrorThrown] s
                     else s);
               r = \<lparr>deviceName = dev_name device,
                    result = (case info s1 ''connectResult'' of
                                Some x \<Rightarrow> x | None \<Rightarrow> FirmwareErrors ext)\<rparr>
           in set_phase t (Done (Established r)) (emit [Dispatch (ConnectEvent r)] s1))
      | _ \<Rightarrow> s)"

subsection \<open>The response listener, the timer and the notification handler\<close>

definition matches :: "NiimbotPacket \<Rightarrow> NiimbotPacket \<Rightarrow> bool" where
  "matches packet received =
     (length (validResponseIds packet) = 0 \<or> command received \<in> set (validResponseIds packet))"

definition unregister :: "tid \<Rightarrow> client \<Rightarrow> client" where
  "unregister t s = s\<lparr>listeners := removeAll t (listeners s)\<rparr>"

definition listener :: "tid \<Rightarrow> NiimbotPacket \<Rightarrow> client \<Rightarrow> client" where
  "listener t received s =
     (case tasks s t of
        Some (SendPacketWaitResponse packet m, Awaiting) \<Rightarrow>
          (if matches packet received
           then settle t (Resolved received) (unregister t (s\<lparr>timers := (timers s)(t := None)\<rparr>))
           else s)
      | _ \<Rightarrow> s)"

definition timeout_message :: "externals \<Rightarrow> NiimbotPacket \<Rightarrow> string" where
  "timeout_message ext packet =
     ''Timeout waiting response (waited for '' @ bufToHex ext (validResponseIds packet) '', '' @ '')''"

definition timer_fired :: "externals \<Rightarrow> tid \<Rightarrow> client \<Rightarrow> client" where
  "timer_fired ext t s =
     (case tasks s t of
        Some (SendPacketWaitResponse packet m, Awaiting) \<Rightarrow>
          (case timers s t of
             None \<Rightarrow> s
           | Some deadline \<Rightarrow>
               (if now s < deadline then s
                else settle t (Rejected (Error (timeout_message ext packet)))
                       (unregister t (s\<lparr>timers := (timers s)(t := None)\<rparr>))))
      | _ \<Rightarrow> s)"

text \<open>The handler of \<^verbatim>\<open>characteristicvaluechanged\<close>. \<^verbatim>\<open>dispatchTypedEvent\<close> calls the
  listeners registered at that moment, in registration order.\<close>

definition characteristicvaluechanged :: "externals \<Rightarrow> byte list \<Rightarrow> client \<Rightarrow> client" where
  "characteristicvaluechanged ext bytes s =
     (case fromBytes ext bytes of
        None \<Rightarrow> s
      | Some packet \<Rightarrow>
          (let s1 = emit [Dispatch (RawPacketReceivedEvent bytes)] s;
               s2 = emit [Dispatch (PacketReceivedEvent packet)] s1;
               s3 = foldl (\<lambda>s' t. listener t packet s') s2 (listeners s2)
           in if \<not> inResponseCommandId ext (command packet)
              then emit [ConsoleWarn (''Unknown response command: 0x'' @ numberToHex ext (command packet))] s3
              else s3))"

subsection \<open>sendPacketWaitResponse and sendRaw, await by await\<close>

definition invoke :: "tid \<Rightarrow> call \<Rightarrow> client \<Rightarrow> client" where
  "invoke t c s =
     (if tasks s t \<noteq> None then s
      else
        (let s1 = s\<lparr>tasks := (tasks s)(t \<mapsto> (c, Queued))\<rparr> in
         case c of
           Connect req \<Rightarrow> connect_link t req s1
         | _ \<Rightarrow>
             (if uses_mutex c
              then (if holder s1 = None then set_phase t Admitted (s1\<lparr>holder := Some t\<rparr>)
                    else s1\<lparr>waiters := waiters s1 @ [t]\<rparr>)
              else snd (send_begin t s1))))"

text \<open>The callback of \<^verbatim>\<open>runExclusive\<close> starts for a caller that found the mutex free:
  \<^verbatim>\<open>send\<close> begins; if it throws, the mutex is released.\<close>

definition callback_start :: "tid \<Rightarrow> client \<Rightarrow> client" where
  "callback_start t s =
     (case tasks s t of
        Some (c, Admitted) \<Rightarrow>
          (case send_begin t s of
             (True, s') \<Rightarrow> s'
           | (False, s') \<Rightarrow> (if uses_mutex c then acquire_next (waiters s') s' else s'))
      | _ \<Rightarrow> s)"

definition sleep_done :: "externals \<Rightarrow> tid \<Rightarrow> client \<Rightarrow> client" where
  "sleep_done ext t s =
     (case tasks s t of
        Some (c, Sleeping wake) \<Rightarrow>
          (if now s < wake then s
           else (case channel s of
                   None \<Rightarrow> settle t (Rejected TypeError) s
                 | Some ch \<Rightarrow>
                     set_phase t Writing (emit [WriteValueWithoutResponse (wire_bytes ext c)] s)))
      | _ \<Rightarrow> s)"

definition write_done :: "externals \<Rightarrow> tid \<Rightarrow> bool \<Rightarrow> client \<Rightarrow> client" where
  "write_done ext t ok s =
     (case tasks s t of
        Some (c, Writing) \<Rightarrow>
          (if \<not> ok then settle t (Rejected TransportError) s
           else
             (let s1 = emit [Dispatch (RawPacketSentEvent (wire_bytes ext c))] s in
              case c of
                SendPacketWaitResponse packet timeoutMs \<Rightarrow>
                  (if oneWay packet
                   then settle t (Resolved (newPacket ext (Invalid ext) [])) s1
                   else (set_phase t Awaiting s1)
                          \<lparr>timers := (timers s1)(t \<mapsto> now s1 +
                                       (case timeoutMs of None \<Rightarrow> 1000 | Some ms \<Rightarrow> ms)),
                           listeners := listeners s1 @ [t]\<rparr>)
              | _ \<Rightarrow> settle t Returned s1))
      | _ \<Rightarrow> s)"

subsection \<open>Actions and runs\<close>

text \<open>
  \<open>SetInfo\<close> stands for the negotiation storing a printer attribute in \<^verbatim>\<open>this.info\<close>
  (\<^verbatim>\<open>initialNegotiate\<close> and \<^verbatim>\<open>fetchPrinterInfo\<close> are methods of the abstract client);
  \<open>NegotiationDone t threw\<close> is the end of the \<^verbatim>\<open>try\<close> block of the connect call \<open>t\<close>;
  \<open>CallbackStart t\<close> is the start of the callback of a call that found the mutex free.
\<close>

datatype action =
    Call tid call
  | CallbackStart tid
  | Advance nat
  | SleepDone tid
  | WriteDone tid bool
  | Notification "byte list"
  | TimerFired tid
  | Disconnect
  | GattServerDisconnected nat
  | SetInfo string nat
  | NegotiationDone tid bool

fun step :: "externals \<Rightarrow> action \<Rightarrow> client \<Rightarrow> client" where
  "step ext (Call t c) s = invoke t c s"
| "step ext (CallbackStart t) s = callback_start t s"
| "step ext (Advance ms) s = s\<lparr>now := now s + ms\<rparr>"
| "step ext (SleepDone t) s = sleep_done ext t s"
| "step ext (WriteDone t ok) s = write_done ext t ok s"
| "step ext (Notification bytes) s = characteristicvaluechanged ext bytes s"
| "step ext (TimerFired t) s = timer_fired ext t s"
| "step ext Disconnect s = disconnect s"
| "step ext (GattServerDisconnected dev) s = gattserverdisconnected dev s"
| "step ext (SetInfo k v) s = s\<lparr>info := (info s)(k \<mapsto> v)\<rparr>"
| "step ext (NegotiationDone t threw) s = connect_finish ext t threw s"

definition run :: "externals \<Rightarrow> action list \<Rightarrow> client \<Rightarrow> client" where
  "run ext acts s = foldl (\<lambda>s' a. step ext a s') s acts"

subsection \<open>Phases inside the critical section, and the invariants of a run\<close>

fun in_section :: "phase \<Rightarrow> bool" where
  "in_section Admitted = True"
| "in_section (Sleeping wake) = True"
| "in_section Writing = True"
| "in_section Awaiting = True"
| "in_section ph = False"

definition in_critical :: "client \<Rightarrow> tid \<Rightarrow> bool" where
  "in_critical s t = (case tasks s t of None \<Rightarrow> False | Some (c, ph) \<Rightarrow> uses_mutex c \<and> in_section ph)"

definition queued :: "client \<Rightarrow> tid \<Rightarrow> bool" where
  "queued s t = (case tasks s t of None \<Rightarrow> False | Some (c, ph) \<Rightarrow> uses_mutex c \<and> ph = Queued)"

definition awaiting :: "client \<Rightarrow> tid \<Rightarrow> bool" where
  "awaiting s t = (case tasks s t of None \<Rightarrow> False | Some (c, ph) \<Rightarrow> ph = Awaiting)"

definition two_way :: "call \<Rightarrow> bool" where
  "two_way c = (case c of SendPacketWaitResponse p m \<Rightarrow> \<not> oneWay p | _ \<Rightarrow> False)"

definition mutex_inv :: "client \<Rightarrow> bool" where
  "mutex_inv s =
     ((\<forall>t. in_critical s t \<longleftrightarrow> holder s = Some t) \<and>
      (\<forall>w \<in> set (waiters s). queued s w) \<and>
      distinct (waiters s) \<and>
      (holder s = None \<longrightarrow> waiters s = []))"

definition corr_inv :: "client \<Rightarrow> bool" where
  "corr_inv s =
     ((\<forall>t. t \<in> set (listeners s) \<longleftrightarrow> awaiting s t) \<and>
      distinct (listeners s) \<and>
      (\<forall>t. timers s t \<noteq> None \<longleftrightarrow> awaiting s t) \<and>
      (\<forall>t c. tasks s t = Some (c, Awaiting) \<longrightarrow> two_way c))"

definition coherent :: "client \<Rightarrow> bool" where
  "coherent s = (mutex_inv s \<and> corr_inv s)"

subsection \<open>The selection, as the specification words it\<close>

text \<open>The first characteristic with both flags among the characteristics of the services
  whose uuid has at least 5 characters, in the order of enumeration.\<close>

definition first_suitable ::
  "BluetoothRemoteGATTService list \<Rightarrow> BluetoothRemoteGATTCharacteristic option" where
  "first_suitable services =
     List.find (\<lambda>c. notify c \<and> writeWithoutResponse c)
       (concat (map (\<lambda>sv. case getCharacteristics sv of None \<Rightarrow> [] | Some cs \<Rightarrow> cs)
                  (filter (\<lambda>sv. 5 \<le> length (s_uuid sv)) services)))"

subsection \<open>Sample collaborators, devices, packets and runs\<close>

text \<open>A decoder that throws on the empty byte sequence and otherwise takes the number of
  bytes as the command; commands 0, 1 and 2 are in ResponseCommandId.\<close>

definition sample_ext :: externals where
  "sample_ext =
     \<lparr>fromBytes = (\<lambda>bs. if bs = [] then None
                        else Some \<lparr>command = length bs, payload = bs, oneWay = False,
                                   validResponseIds = []\<rparr>),
      toBytes = payload,
      newPacket = (\<lambda>c d. \<lparr>command = c, payload = d, oneWay = False, validResponseIds = []\<rparr>),
      inResponseCommandId = (\<lambda>c. c < 3),
      Invalid = 0, FirmwareErrors = 90,
      bufToHex = (\<lambda>ids sep. ''ids''), numberToHex = (\<lambda>n. ''n'')\<rparr>"

definition sample_characteristic :: BluetoothRemoteGATTCharacteristic where
  "sample_characteristic =
     \<lparr>c_uuid = ''bef8d6c9'', notify = True, writeWithoutResponse = True,
      startNotifications = True\<rparr>"

definition sample_server :: BluetoothRemoteGATTServer where
  "sample_server =
     \<lparr>gatt_connect = True,
      getPrimaryServices =
        Some [\<lparr>s_uuid = ''1800'', getCharacteristics = None\<rparr>,
              \<lparr>s_uuid = ''e7810a71'', getCharacteristics = Some [sample_characteristic]\<rparr>]\<rparr>"

definition bare_server :: BluetoothRemoteGATTServer where
  "bare_server =
     \<lparr>gatt_connect = True,
      getPrimaryServices =
        Some [\<lparr>s_uuid = ''1800'', getCharacteristics = Some [sample_characteristic]\<rparr>,
              \<lparr>s_uuid = ''e7810a71'',
               getCharacteristics = Some [sample_characteristic\<lparr>notify := False\<rparr>]\<rparr>]\<rparr>"

definition sample_device :: BluetoothDevice where
  "sample_device = \<lparr>dev_id = 7, dev_name = Some ''D110'', gatt = Some sample_server\<rparr>"

definition bare_device :: BluetoothDevice where
  "bare_device = \<lparr>dev_id = 8, dev_name = Some ''B21'', gatt = Some bare_server\<rparr>"

definition sample_packet :: NiimbotPacket where
  "sample_packet = \<lparr>command = 1, payload = [1], oneWay = False, validResponseIds = [2]\<rparr>"

definition linked :: client where
  "linked = run sample_ext [Call 0 (Connect (Some sample_device))] (init 10)"

definition pending :: client where
  "pending = run sample_ext [Call 2 (SendPacketWaitResponse sample_packet None),
                CallbackStart 2, Advance 10, SleepDone 2, WriteDone 2 True] linked"

text \<open>The actions of a negotiation: everything but a disconnect and another connect.\<close>

definition keeps_link :: "action \<Rightarrow> bool" where
  "keeps_link a =
     (case a of
        Disconnect \<Rightarrow> False
      | GattServerDisconnected dev \<Rightarrow> False
      | Call t c \<Rightarrow> (case c of Connect r \<Rightarrow> False | _ \<Rightarrow> True)
      | _ \<Rightarrow> True)"

definition sample_services :: "BluetoothRemoteGATTService list" where
  "sample_services =
     [\<lparr>s_uuid = ''1800'', getCharacteristics = None\<rparr>,
      \<lparr>s_uuid = ''e7810a71'', getCharacteristics = Some [sample_characteristic]\<rparr>]"

definition bare_services :: "BluetoothRemoteGATTService list" where
  "bare_services =
     [\<lparr>s_uuid = ''1800'', getCharacteristics = Some [sample_characteristic]\<rparr>,
      \<lparr>s_uuid = ''e7810a71'',
       getCharacteristics = Some [sample_characteristic\<lparr>notify := False\<rparr>]\<rparr>]"

definition wildcard_packet :: NiimbotPacket where
  "wildcard_packet = \<lparr>command = 1, payload = [1], oneWay = False, validResponseIds = []\<rparr>"

definition pending_any_acts :: "action list" where
  "pending_any_acts = [Call 0 (Connect (Some sample_device)),
                       Call 2 (SendPacketWaitResponse wildcard_packet None),
                       CallbackStart 2, Advance 10, SleepDone 2, WriteDone 2 True]"

definition pending_any :: client where
  "pending_any = run sample_ext pending_any_acts (init 10)"

definition pending_acts :: "action list" where
  "pending_acts = [Call 0 (Connect (Some sample_device)),
                   Call 2 (SendPacketWaitResponse sample_packet None),
                   CallbackStart 2, Advance 10, SleepDone 2, WriteDone 2 True]"

definition oneway_packet :: NiimbotPacket where
  "oneway_packet = \<lparr>command = 4, payload = [4], oneWay = True, validResponseIds = [2]\<rparr>"

definition writing_oneway_acts :: "action list" where
  "writing_oneway_acts = [Call 0 (Connect (Some sample_device)),
                          Call 2 (SendPacketWaitResponse oneway_packet None),
                          CallbackStart 2, Advance 10, SleepDone 2]"

definition writing_oneway :: client where
  "writing_oneway = run sample_ext writing_oneway_acts (init 10)"

definition writing_acts :: "action list" where
  "writing_acts = [Call 0 (Connect (Some sample_device)),
                   Call 2 (SendPacketWaitResponse sample_packet None), CallbackStart 2,
                   Call 3 (SendRaw [9] False), Advance 10, SleepDone 2]"

definition writing :: client where
  "writing = run sample_ext writing_acts (init 10)"

definition overdue_acts :: "action list" where
  "overdue_acts = writing_acts @ [WriteDone 2 True, Advance 1000]"

definition overdue :: client where
  "overdue = run sample_ext overdue_acts (init 10)"

subsection \<open>What ends a pending request\<close>

text \<open>The outcome an action gives to the request \<open>pk\<close> of the call \<open>t\<close> that waits for its
  response: an inbound packet that matches resolves it, its timer at or after the
  deadline rejects it; nothing else ends it.\<close>

definition ending :: "externals \<Rightarrow> NiimbotPacket \<Rightarrow> tid \<Rightarrow> client \<Rightarrow> action \<Rightarrow> outcome option" where
  "ending ext pk t s a =
     (case a of
        Notification bytes \<Rightarrow>
          (case fromBytes ext bytes of
             None \<Rightarrow> None
           | Some r \<Rightarrow> if matches pk r then Some (Resolved r) else None)
      | TimerFired u \<Rightarrow>
          (if u = t \<and> (case timers s t of None \<Rightarrow> False | Some deadline \<Rightarrow> deadline \<le> now s)
           then Some (Rejected (Error (timeout_message ext pk))) else None)
      | _ \<Rightarrow> None)"

definition cut_off_acts :: "action list" where
  "cut_off_acts = pending_acts @ [Disconnect, Advance 1000]"

definition cut_off :: client where
  "cut_off = run sample_ext cut_off_acts (init 10)"

subsection \<open>How one action may move the mutex\<close>

text \<open>Holder and queue before and after: nothing moves; a caller joins the tail of the
  queue; a caller takes the free mutex; the holder releases and the head of the queue takes
  over (or, with the channel unset, every waiter is admitted in turn and throws).\<close>

definition gate_step :: "client \<Rightarrow> client \<Rightarrow> bool" where
  "gate_step s s' =
     ((holder s' = holder s \<and> waiters s' = waiters s) \<or>
      (holder s \<noteq> None \<and> holder s' = holder s \<and> waiters s' \<noteq> [] \<and>
       butlast (waiters s') = waiters s) \<or>
      (holder s = None \<and> holder s' \<noteq> None \<and> waiters s = [] \<and> waiters s' = []) \<or>
      (holder s \<noteq> None \<and>
       (case waiters s of
          [] \<Rightarrow> holder s' = None \<and> waiters s' = []
        | w # ws \<Rightarrow>
            (holder s' = Some w \<and> waiters s' = ws) \<or>
            (channel s = None \<and> holder s' = None \<and> waiters s' = []))))"

definition released_by_settling :: "client \<Rightarrow> client \<Rightarrow> bool" where
  "released_by_settling s s' =
     (case holder s of
        None \<Rightarrow> True
      | Some t \<Rightarrow>
          holder s' = Some t \<or>
          (case tasks s' t of Some (c, Done out) \<Rightarrow> True | _ \<Rightarrow> False))"

definition gate_ok :: "client \<Rightarrow> client \<Rightarrow> bool" where
  "gate_ok s s' = (gate_step s s' \<and> released_by_settling s s')"

subsection \<open>A raw send on its own, forced and non-forced\<close>

text \<open>The actions that concern one raw send and no other call; the non-forced twin of a
  state in which the call \<open>t\<close> is a forced raw send; and the states in which a forced raw
  send runs with the mutex free and nobody waiting.\<close>

definition own :: "tid \<Rightarrow> action \<Rightarrow> bool" where
  "own t a =
     (case a of
        Advance ms \<Rightarrow> True
      | SleepDone u \<Rightarrow> u = t
      | WriteDone u ok \<Rightarrow> u = t
      | Disconnect \<Rightarrow> True
      | GattServerDisconnected dev \<Rightarrow> True
      | SetInfo k v \<Rightarrow> True
      | _ \<Rightarrow> False)"

definition as_unforced :: "tid \<Rightarrow> client \<Rightarrow> client" where
  "as_unforced t s =
     (case tasks s t of
        Some (SendRaw d f, ph) \<Rightarrow>
          s\<lparr>tasks := (tasks s)(t \<mapsto> (SendRaw d False, ph)),
            holder := (if in_section ph then Some t else None)\<rparr>
      | _ \<Rightarrow> s)"

definition forced_alone :: "tid \<Rightarrow> byte list \<Rightarrow> client \<Rightarrow> bool" where
  "forced_alone t d s =
     (holder s = None \<and> waiters s = [] \<and>
      (case tasks s t of Some (c, ph) \<Rightarrow> c = SendRaw d True \<and> ph \<noteq> Queued | None \<Rightarrow> False))"

definition contended_sleeping_acts :: "action list" where
  "contended_sleeping_acts = pending_acts @ [Call 4 (SendRaw [9] True), Advance 10]"

definition contended_sleeping :: client where
  "contended_sleeping = run sample_ext contended_sleeping_acts (init 10)"

definition contended_writing_acts :: "action list" where
  "contended_writing_acts = contended_sleeping_acts @ [SleepDone 4]"

definition contended_writing :: client where
  "contended_writing = run sample_ext contended_writing_acts (init 10)"

definition admitted_acts :: "action list" where
  "admitted_acts = [Call 0 (Connect (Some sample_device)), Call 4 (SendRaw [9] False)]"

definition admitted :: client where
  "admitted = run sample_ext admitted_acts (init 10)"

section \<open>The invariants hold in every run\<close>

lemma set_phase_fields [simp]:
  "holder (set_phase t ph s) = holder s"
  "waiters (set_phase t ph s) = waiters s"
  "listeners (set_phase t ph s) = listeners s"
  "timers (set_phase t ph s) = timers s"
  "channel (set_phase t ph s) = channel s"
  "gattServer (set_phase t ph s) = gattServer s"
  "info (set_phase t ph s) = info s"
  "now (set_phase t ph s) = now s"
  "packetIntervalMs (set_phase t ph s) = packetIntervalMs s"
  "trace (set_phase t ph s) = trace s"
  "deviceListeners (set_phase t ph s) = deviceListeners s"
  by (simp_all add: set_phase_def split: option.splits)

lemma set_phase_tasks:
  "tasks (set_phase t ph s) u =
     (if u = t then map_option (\<lambda>(c, old). (c, ph)) (tasks s t) else tasks s u)"
  by (simp add: set_phase_def split: option.splits)

lemma emit_fields [simp]:
  "holder (emit es s) = holder s"
  "waiters (emit es s) = waiters s"
  "listeners (emit es s) = listeners s"
  "timers (emit es s) = timers s"
  "channel (emit es s) = channel s"
  "gattServer (emit es s) = gattServer s"
  "info (emit es s) = info s"
  "now (emit es s) = now s"
  "packetIntervalMs (emit es s) = packetIntervalMs s"
  "tasks (emit es s) = tasks s"
  "deviceListeners (emit es s) = deviceListeners s"
  "trace (emit es s) = trace s @ es"
  by (simp_all add: emit_def)

text \<open>The invariants read only some fields.\<close>

lemma mutex_inv_cong:
  "tasks s' = tasks s \<Longrightarrow> holder s' = holder s \<Longrightarrow> waiters s' = waiters s \<Longrightarrow>
   mutex_inv s' = mutex_inv s"
  by (simp add: mutex_inv_def in_critical_def queued_def)

lemma corr_inv_cong:
  "tasks s' = tasks s \<Longrightarrow> listeners s' = listeners s \<Longrightarrow> timers s' = timers s \<Longrightarrow>
   corr_inv s' = corr_inv s"
  by (simp add: corr_inv_def awaiting_def)

text \<open>Changing the phase of a task outside the mutex's bookkeeping.\<close>

lemma in_critical_set_phase:
  "in_critical (set_phase t ph s) u =
     (if u = t then (case tasks s t of None \<Rightarrow> False | Some (c, old) \<Rightarrow> uses_mutex c \<and> in_section ph)
      else in_critical s u)"
  by (auto simp: in_critical_def set_phase_tasks split: option.splits)

lemma queued_set_phase:
  "queued (set_phase t ph s) u =
     (if u = t then (case tasks s t of None \<Rightarrow> False | Some (c, old) \<Rightarrow> uses_mutex c \<and> ph = Queued)
      else queued s u)"
  by (auto simp: queued_def set_phase_tasks split: option.splits)

lemma awaiting_set_phase:
  "awaiting (set_phase t ph s) u =
     (if u = t then (tasks s t \<noteq> None \<and> ph = Awaiting) else awaiting s u)"
  by (auto simp: awaiting_def set_phase_tasks split: option.splits)

lemma pred_updates [simp]:
  "in_critical (holder_update f s) = in_critical s"
  "in_critical (waiters_update g s) = in_critical s"
  "in_critical (listeners_update h s) = in_critical s"
  "in_critical (timers_update k s) = in_critical s"
  "in_critical (emit es s) = in_critical s"
  "queued (holder_update f s) = queued s"
  "queued (waiters_update g s) = queued s"
  "queued (listeners_update h s) = queued s"
  "queued (timers_update k s) = queued s"
  "queued (emit es s) = queued s"
  "awaiting (holder_update f s) = awaiting s"
  "awaiting (waiters_update g s) = awaiting s"
  "awaiting (listeners_update h s) = awaiting s"
  "awaiting (timers_update k s) = awaiting s"
  "awaiting (emit es s) = awaiting s"
  by (simp_all add: in_critical_def queued_def awaiting_def fun_eq_iff)

lemma acquire_next_mutex_inv:
  "\<forall>t. \<not> in_critical s t \<Longrightarrow> \<forall>w \<in> set ws. queued s w \<Longrightarrow> distinct ws \<Longrightarrow>
   mutex_inv (acquire_next ws s)"
proof (induction ws arbitrary: s)
  case Nil
  then show ?case by (simp add: mutex_inv_def in_critical_def)
next
  case (Cons w ws)
  let ?s0 = "s\<lparr>holder := Some w, waiters := ws\<rparr>"
  have q: "queued s w" using Cons.prems by simp
  show ?case
  proof (cases "channel s = None")
    case True
    let ?s1 = "set_phase w (Done (Rejected (Error ''Channel is closed''))) ?s0"
    have a: "acquire_next (w # ws) s = acquire_next ws ?s1"
      using True by (simp add: send_begin_def)
    have "\<forall>t. \<not> in_critical ?s1 t"
      using Cons.prems(1) by (simp add: in_critical_set_phase split: option.splits)
    moreover have "\<forall>v \<in> set ws. queued ?s1 v"
      using Cons.prems(2,3) by (auto simp: queued_set_phase)
    ultimately show ?thesis using Cons.IH Cons.prems(3) a by simp
  next
    case False
    let ?s1 = "set_phase w (Sleeping (now s + packetIntervalMs s)) ?s0"
    have a: "acquire_next (w # ws) s = ?s1"
      using False by (auto simp: send_begin_def)
    have "\<forall>t. in_critical ?s1 t \<longleftrightarrow> t = w"
      using Cons.prems(1) q by (auto simp: in_critical_set_phase queued_def split: option.splits)
    moreover have "\<forall>v \<in> set ws. queued ?s1 v"
      using Cons.prems(2,3) by (auto simp: queued_set_phase)
    ultimately show ?thesis using Cons.prems(3) a by (auto simp: mutex_inv_def)
  qed
qed

lemma send_begin_fields [simp]:
  "holder (snd (send_begin t s)) = holder s"
  "waiters (snd (send_begin t s)) = waiters s"
  "listeners (snd (send_begin t s)) = listeners s"
  "timers (snd (send_begin t s)) = timers s"
  "channel (snd (send_begin t s)) = channel s"
  "gattServer (snd (send_begin t s)) = gattServer s"
  "info (snd (send_begin t s)) = info s"
  "now (snd (send_begin t s)) = now s"
  "packetIntervalMs (snd (send_begin t s)) = packetIntervalMs s"
  "trace (snd (send_begin t s)) = trace s"
  "deviceListeners (snd (send_begin t s)) = deviceListeners s"
  by (simp_all add: send_begin_def)

lemma acquire_next_fields [simp]:
  "listeners (acquire_next ws s) = listeners s"
  "timers (acquire_next ws s) = timers s"
  "channel (acquire_next ws s) = channel s"
  "gattServer (acquire_next ws s) = gattServer s"
  "info (acquire_next ws s) = info s"
  "now (acquire_next ws s) = now s"
  "packetIntervalMs (acquire_next ws s) = packetIntervalMs s"
  "trace (acquire_next ws s) = trace s"
  "deviceListeners (acquire_next ws s) = deviceListeners s"
  by (induction ws arbitrary: s; simp add: send_begin_def)+

lemma settle_fields [simp]:
  "listeners (settle t out s) = listeners s"
  "timers (settle t out s) = timers s"
  "channel (settle t out s) = channel s"
  "gattServer (settle t out s) = gattServer s"
  "info (settle t out s) = info s"
  "now (settle t out s) = now s"
  "packetIntervalMs (settle t out s) = packetIntervalMs s"
  "trace (settle t out s) = trace s"
  "deviceListeners (settle t out s) = deviceListeners s"
  by (simp_all add: settle_def Let_def split: option.splits)

lemma settle_via_set_phase:
  "settle t out s =
     (case tasks s t of
        None \<Rightarrow> s
      | Some (c, old) \<Rightarrow>
          if uses_mutex c then acquire_next (waiters s) (set_phase t (Done out) s)
          else set_phase t (Done out) s)"
  by (simp add: settle_def set_phase_def Let_def split: option.splits)

lemma corr_inv_set_phase:
  "corr_inv s \<Longrightarrow> \<not> awaiting s t \<Longrightarrow> ph \<noteq> Awaiting \<Longrightarrow> corr_inv (set_phase t ph s)"
  by (auto simp: corr_inv_def awaiting_set_phase set_phase_tasks split: if_splits)

lemma queued_not_awaiting: "queued s t \<Longrightarrow> \<not> awaiting s t"
  by (auto simp: queued_def awaiting_def split: option.splits)

lemma acquire_next_corr_inv:
  "\<forall>w \<in> set ws. queued s w \<Longrightarrow> distinct ws \<Longrightarrow> corr_inv s \<Longrightarrow> corr_inv (acquire_next ws s)"
proof (induction ws arbitrary: s)
  case Nil
  then show ?case by (simp add: corr_inv_cong [of "s\<lparr>holder := None, waiters := []\<rparr>" s])
next
  case (Cons w ws)
  let ?s0 = "s\<lparr>holder := Some w, waiters := ws\<rparr>"
  have c0: "corr_inv ?s0" using Cons.prems(3) by (simp add: corr_inv_cong [of ?s0 s])
  have na: "\<not> awaiting ?s0 w" using Cons.prems(1) by (simp add: queued_not_awaiting)
  show ?case
  proof (cases "channel s = None")
    case True
    let ?s1 = "set_phase w (Done (Rejected (Error ''Channel is closed''))) ?s0"
    have a: "acquire_next (w # ws) s = acquire_next ws ?s1"
      using True by (simp add: send_begin_def)
    have "corr_inv ?s1" using c0 na by (simp add: corr_inv_set_phase)
    moreover have "\<forall>v \<in> set ws. queued ?s1 v"
      using Cons.prems(1,2) by (auto simp: queued_set_phase)
    ultimately show ?thesis using Cons.IH Cons.prems(2) a by simp
  next
    case False
    then have a: "acquire_next (w # ws) s = set_phase w (Sleeping (now s + packetIntervalMs s)) ?s0"
      by (auto simp: send_begin_def)
    show ?thesis using c0 na a by (simp add: corr_inv_set_phase)
  qed
qed

text \<open>A call that is not queued settles: the mutex passes on, the correlator's books stay.\<close>

lemma settle_mutex_inv:
  assumes "mutex_inv s" and "\<forall>c ph. tasks s t = Some (c, ph) \<longrightarrow> uses_mutex c \<longrightarrow> in_section ph"
  shows "mutex_inv (settle t out s)"
proof (cases "tasks s t")
  case None
  then show ?thesis using assms by (simp add: settle_def)
next
  case (Some cp)
  obtain c old where cp: "cp = (c, old)" by (cases cp)
  let ?s1 = "set_phase t (Done out) s"
  show ?thesis
  proof (cases "uses_mutex c")
    case True
    have "\<forall>u. \<not> in_critical ?s1 u"
    proof
      fix u
      show "\<not> in_critical ?s1 u"
      proof (cases "u = t")
        case True
        then show ?thesis by (simp add: in_critical_set_phase split: option.splits)
      next
        case False
        have "in_critical s t" using assms(2) Some cp True
          by (simp add: in_critical_def)
        then have "holder s = Some t" using assms(1) by (simp add: mutex_inv_def)
        then have "\<not> in_critical s u" using assms(1) False by (auto simp: mutex_inv_def)
        then show ?thesis using False by (simp add: in_critical_set_phase)
      qed
    qed
    moreover have "\<not> queued s t" using assms(2) Some cp
      by (auto simp: queued_def)
    then have "\<forall>w \<in> set (waiters s). queued ?s1 w"
      using assms(1) by (auto simp: queued_set_phase mutex_inv_def)
    moreover have "distinct (waiters s)" using assms(1) by (simp add: mutex_inv_def)
    ultimately have "mutex_inv (acquire_next (waiters s) ?s1)"
      by (rule acquire_next_mutex_inv)
    then show ?thesis using Some cp True by (simp add: settle_via_set_phase)
  next
    case False
    have "\<forall>u. in_critical ?s1 u = in_critical s u"
      using Some cp False by (simp add: in_critical_set_phase) (simp add: in_critical_def)
    moreover have "\<forall>u. queued ?s1 u = queued s u"
      using Some cp False by (simp add: queued_set_phase) (simp add: queued_def)
    ultimately have "mutex_inv ?s1" using assms(1) by (simp add: mutex_inv_def)
    then show ?thesis using Some cp False by (simp add: settle_via_set_phase)
  qed
qed

lemma settle_corr_inv:
  assumes "corr_inv s" and "mutex_inv s" and "\<not> awaiting s t" and "\<not> queued s t"
  shows "corr_inv (settle t out s)"
proof (cases "tasks s t")
  case None
  then show ?thesis using assms by (simp add: settle_def)
next
  case (Some cp)
  obtain c old where cp: "cp = (c, old)" by (cases cp)
  let ?s1 = "set_phase t (Done out) s"
  have c1: "corr_inv ?s1" using assms(1,3) by (simp add: corr_inv_set_phase)
  show ?thesis
  proof (cases "uses_mutex c")
    case True
    have "\<forall>w \<in> set (waiters s). queued ?s1 w"
      using assms(2,4) by (auto simp: queued_set_phase mutex_inv_def)
    moreover have "distinct (waiters s)" using assms(2) by (simp add: mutex_inv_def)
    ultimately have "corr_inv (acquire_next (waiters s) ?s1)"
      using c1 by (rule acquire_next_corr_inv)
    then show ?thesis using Some cp True by (simp add: settle_via_set_phase)
  next
    case False
    then show ?thesis using Some cp c1 by (simp add: settle_via_set_phase)
  qed
qed

lemma mutex_inv_set_phase:
  assumes "mutex_inv s"
    and "\<forall>c old. tasks s t = Some (c, old) \<longrightarrow> uses_mutex c \<longrightarrow>
           in_section old = in_section ph \<and> old \<noteq> Queued \<and> ph \<noteq> Queued"
  shows "mutex_inv (set_phase t ph s)"
proof -
  have "\<forall>u. in_critical (set_phase t ph s) u = in_critical s u"
    using assms(2) by (simp add: in_critical_set_phase) (auto simp: in_critical_def split: option.splits)
  moreover have "\<forall>u. queued (set_phase t ph s) u = queued s u"
    using assms(2) by (simp add: queued_set_phase) (auto simp: queued_def split: option.splits)
  ultimately show ?thesis using assms(1) by (simp add: mutex_inv_def)
qed

lemma disconnect_fields [simp]:
  "tasks (disconnect s) = tasks s"
  "holder (disconnect s) = holder s"
  "waiters (disconnect s) = waiters s"
  "listeners (disconnect s) = listeners s"
  "timers (disconnect s) = timers s"
  "now (disconnect s) = now s"
  "packetIntervalMs (disconnect s) = packetIntervalMs s"
  "deviceListeners (disconnect s) = deviceListeners s"
  "gattServer (disconnect s) = None"
  "channel (disconnect s) = None"
  "info (disconnect s) = Map.empty"
  by (simp_all add: disconnect_def Let_def split: option.splits)

lemma disconnectListener_fields [simp]:
  "tasks (disconnectListener d s) = tasks s"
  "holder (disconnectListener d s) = holder s"
  "waiters (disconnectListener d s) = waiters s"
  "listeners (disconnectListener d s) = listeners s"
  "timers (disconnectListener d s) = timers s"
  "now (disconnectListener d s) = now s"
  "packetIntervalMs (disconnectListener d s) = packetIntervalMs s"
  "gattServer (disconnectListener d s) = None"
  "channel (disconnectListener d s) = None"
  "info (disconnectListener d s) = Map.empty"
  by (simp_all add: disconnectListener_def)

lemma foldl_disconnectListener_fields [simp]:
  "tasks (foldl (\<lambda>s' d. disconnectListener d s') s ds) = tasks s"
  "holder (foldl (\<lambda>s' d. disconnectListener d s') s ds) = holder s"
  "waiters (foldl (\<lambda>s' d. disconnectListener d s') s ds) = waiters s"
  "listeners (foldl (\<lambda>s' d. disconnectListener d s') s ds) = listeners s"
  "timers (foldl (\<lambda>s' d. disconnectListener d s') s ds) = timers s"
  "now (foldl (\<lambda>s' d. disconnectListener d s') s ds) = now s"
  "packetIntervalMs (foldl (\<lambda>s' d. disconnectListener d s') s ds) = packetIntervalMs s"
  by (induction ds arbitrary: s; simp)+

lemma coherent_cong:
  "tasks s' = tasks s \<Longrightarrow> holder s' = holder s \<Longrightarrow> waiters s' = waiters s \<Longrightarrow>
   listeners s' = listeners s \<Longrightarrow> timers s' = timers s \<Longrightarrow> coherent s' = coherent s"
  by (simp add: coherent_def mutex_inv_cong [of s' s] corr_inv_cong [of s' s])

lemma coherent_emit [simp]: "coherent (emit es s) = coherent s"
  by (rule coherent_cong) simp_all

lemma coherent_disconnect: "coherent s \<Longrightarrow> coherent (disconnect s)"
  by (simp add: coherent_cong [of "disconnect s" s])

lemma coherent_gattserverdisconnected: "coherent s \<Longrightarrow> coherent (gattserverdisconnected dev s)"
  unfolding gattserverdisconnected_def by (subst coherent_cong [of _ s]) simp_all

lemma coherent_settle:
  assumes "coherent s" and "tasks s t = Some (c, ph)"
    and "uses_mutex c \<longrightarrow> in_section ph" and "ph \<noteq> Awaiting" and "ph \<noteq> Queued"
  shows "coherent (settle t out s)"
proof -
  have "\<not> awaiting s t" "\<not> queued s t"
    using assms(2,4,5) by (simp_all add: awaiting_def queued_def)
  then show ?thesis using assms
    by (simp add: coherent_def settle_mutex_inv settle_corr_inv)
qed

lemma coherent_set_phase:
  assumes "coherent s" and "tasks s t = Some (c, old)"
    and "uses_mutex c \<longrightarrow> in_section old = in_section ph \<and> old \<noteq> Queued \<and> ph \<noteq> Queued"
    and "old \<noteq> Awaiting" and "ph \<noteq> Awaiting"
  shows "coherent (set_phase t ph s)"
proof -
  have "\<not> awaiting s t" using assms(2,4) by (simp add: awaiting_def)
  then show ?thesis using assms
    by (simp add: coherent_def mutex_inv_set_phase corr_inv_set_phase)
qed

lemma coherent_sleep_done: "coherent s \<Longrightarrow> coherent (sleep_done ext t s)"
proof (cases "tasks s t")
  case None
  then show "coherent s \<Longrightarrow> ?thesis" by (simp add: sleep_done_def)
next
  case (Some cp)
  assume w: "coherent s"
  obtain c ph where cp: "cp = (c, ph)" by (cases cp)
  show ?thesis
  proof (cases ph)
    case (Sleeping wake)
    have tk: "tasks s t = Some (c, Sleeping wake)" using Some cp Sleeping by simp
    have a: "coherent (settle t (Rejected TypeError) s)"
      using w tk by (rule coherent_settle) simp_all
    have tk': "tasks (emit [WriteValueWithoutResponse (wire_bytes ext c)] s) t = Some (c, Sleeping wake)"
      using tk by simp
    have b: "coherent (set_phase t Writing (emit [WriteValueWithoutResponse (wire_bytes ext c)] s))"
      using _ tk' by (rule coherent_set_phase) (simp_all add: w)
    show ?thesis using tk w a b
      by (simp add: sleep_done_def split: option.splits)
  qed (use Some cp w in \<open>simp_all add: sleep_done_def\<close>)
qed

lemma unregister_fields [simp]:
  "tasks (unregister t s) = tasks s"
  "holder (unregister t s) = holder s"
  "waiters (unregister t s) = waiters s"
  "timers (unregister t s) = timers s"
  "listeners (unregister t s) = removeAll t (listeners s)"
  "in_critical (unregister t s) = in_critical s"
  "queued (unregister t s) = queued s"
  "awaiting (unregister t s) = awaiting s"
  by (simp_all add: unregister_def)

text \<open>The exchange settles from the waiting phase: listener and timer are gone first.\<close>

lemma coherent_settle_awaiting:
  assumes "coherent s" and "tasks s t = Some (c, Awaiting)"
  shows "coherent (settle t out (unregister t (s\<lparr>timers := (timers s)(t := None)\<rparr>)))"
proof -
  let ?s0 = "unregister t (s\<lparr>timers := (timers s)(t := None)\<rparr>)"
  let ?s1 = "set_phase t (Done out) ?s0"
  have t0: "tasks ?s0 = tasks s" "holder ?s0 = holder s" "waiters ?s0 = waiters s"
    "listeners ?s0 = removeAll t (listeners s)" "timers ?s0 = (timers s)(t := None)"
    by (simp_all add: unregister_def)
  have m0: "mutex_inv ?s0" using assms(1) t0 by (simp add: coherent_def mutex_inv_cong [of ?s0 s])
  have m: "mutex_inv (settle t out ?s0)"
    using m0 assms(2) t0 by (intro settle_mutex_inv) auto
  have aw: "\<forall>u. awaiting ?s1 u = (u \<noteq> t \<and> awaiting s u)"
    by (simp add: awaiting_set_phase)
  have ci: "corr_inv s" using assms(1) by (simp add: coherent_def)
  have c1: "corr_inv ?s1"
    unfolding corr_inv_def
  proof (intro conjI allI)
    fix u
    show "(u \<in> set (listeners ?s1)) = awaiting ?s1 u"
      using ci aw by (auto simp: corr_inv_def)
    show "(timers ?s1 u \<noteq> None) = awaiting ?s1 u"
      using ci aw by (auto simp: corr_inv_def)
    show "distinct (listeners ?s1)"
      using ci by (simp add: corr_inv_def distinct_removeAll)
  next
    fix u c'
    show "tasks ?s1 u = Some (c', Awaiting) \<longrightarrow> two_way c'"
      using ci by (auto simp: corr_inv_def set_phase_tasks split: if_splits)
  qed
  have nq: "\<not> queued s t" using assms(2) by (simp add: queued_def)
  have c: "corr_inv (settle t out ?s0)"
  proof (cases "uses_mutex c")
    case True
    have "\<forall>w \<in> set (waiters s). queued ?s1 w"
      using assms(1) nq by (auto simp: queued_set_phase coherent_def mutex_inv_def)
    moreover have "distinct (waiters s)" using assms(1) by (simp add: coherent_def mutex_inv_def)
    ultimately have "corr_inv (acquire_next (waiters s) ?s1)"
      using c1 by (rule acquire_next_corr_inv)
    then show ?thesis using assms(2) True t0 by (simp add: settle_via_set_phase)
  next
    case False
    then show ?thesis using assms(2) c1 t0 by (simp add: settle_via_set_phase)
  qed
  show ?thesis using m c by (simp add: coherent_def)
qed

lemma coherent_listener: "coherent s \<Longrightarrow> coherent (listener t p s)"
proof (cases "tasks s t")
  case None
  then show "coherent s \<Longrightarrow> ?thesis" by (simp add: listener_def)
next
  case (Some cp)
  assume w: "coherent s"
  obtain c ph where cp: "cp = (c, ph)" by (cases cp)
  show ?thesis
  proof (cases "ph = Awaiting")
    case True
    then have tk: "tasks s t = Some (c, Awaiting)" using Some cp by simp
    show ?thesis using w tk coherent_settle_awaiting [OF w tk]
      by (cases c) (simp_all add: listener_def)
  next
    case False
    then show ?thesis using Some cp w
      by (cases c; cases ph) (simp_all add: listener_def)
  qed
qed

lemma coherent_timer_fired: "coherent s \<Longrightarrow> coherent (timer_fired ext t s)"
proof (cases "tasks s t")
  case None
  then show "coherent s \<Longrightarrow> ?thesis" by (simp add: timer_fired_def)
next
  case (Some cp)
  assume w: "coherent s"
  obtain c ph where cp: "cp = (c, ph)" by (cases cp)
  show ?thesis
  proof (cases "ph = Awaiting")
    case True
    then have tk: "tasks s t = Some (c, Awaiting)" using Some cp by simp
    show ?thesis using w tk coherent_settle_awaiting [OF w tk]
      by (cases c) (simp_all add: timer_fired_def split: option.splits)
  next
    case False
    then show ?thesis using Some cp w
      by (cases c; cases ph) (simp_all add: timer_fired_def)
  qed
qed

lemma coherent_foldl_listener: "coherent s \<Longrightarrow> coherent (foldl (\<lambda>s' t. listener t p s') s ts)"
  by (induction ts arbitrary: s) (simp_all add: coherent_listener)

lemma coherent_characteristicvaluechanged: "coherent s \<Longrightarrow> coherent (characteristicvaluechanged ext bytes s)"
  by (simp add: characteristicvaluechanged_def Let_def coherent_foldl_listener split: option.splits)

lemma coherent_connect_finish: "coherent s \<Longrightarrow> coherent (connect_finish ext t threw s)"
proof (cases "tasks s t")
  case None
  then show "coherent s \<Longrightarrow> ?thesis" by (simp add: connect_finish_def)
next
  case (Some cp)
  assume w: "coherent s"
  obtain c ph where cp: "cp = (c, ph)" by (cases cp)
  show ?thesis
  proof (cases ph)
    case (Negotiating device)
    have tk: "tasks s t = Some (c, Negotiating device)" using Some cp Negotiating by simp
    have "coherent (set_phase t (Done out) (emit es (emit es' s)))" for out es es'
      by (rule coherent_set_phase [where c = c and old = "Negotiating device"]) (simp_all add: w tk)
    moreover have "coherent (set_phase t (Done out) (emit es s))" for out es
      by (rule coherent_set_phase [where c = c and old = "Negotiating device"]) (simp_all add: w tk)
    ultimately show ?thesis using tk
      by (simp add: connect_finish_def Let_def)
  qed (use Some cp w in \<open>simp_all add: connect_finish_def\<close>)
qed

lemma coherent_register:
  assumes w: "coherent s" and tk: "tasks s t = Some (SendPacketWaitResponse p m, Writing)"
    and two: "\<not> oneWay p"
  shows "coherent ((set_phase t Awaiting s)\<lparr>timers := (timers s)(t \<mapsto> d), listeners := listeners s @ [t]\<rparr>)"
proof -
  let ?s1 = "set_phase t Awaiting s"
  let ?s2 = "?s1\<lparr>timers := (timers s)(t \<mapsto> d), listeners := listeners s @ [t]\<rparr>"
  have "mutex_inv ?s1"
    using w tk by (intro mutex_inv_set_phase) (simp_all add: coherent_def)
  then have m: "mutex_inv ?s2" by (simp add: mutex_inv_cong [of ?s2 ?s1])
  have ci: "corr_inv s" using w by (simp add: coherent_def)
  have na: "\<not> awaiting s t" using tk by (simp add: awaiting_def)
  have aw: "\<forall>u. awaiting ?s2 u = (u = t \<or> awaiting s u)"
    using tk by (simp add: awaiting_set_phase)
  have c: "corr_inv ?s2"
    unfolding corr_inv_def
  proof (intro conjI allI)
    fix u
    show "(u \<in> set (listeners ?s2)) = awaiting ?s2 u"
      using ci aw by (auto simp: corr_inv_def)
    show "(timers ?s2 u \<noteq> None) = awaiting ?s2 u"
      using ci aw by (auto simp: corr_inv_def)
    show "distinct (listeners ?s2)"
      using ci na by (auto simp: corr_inv_def)
  next
    fix u c'
    show "tasks ?s2 u = Some (c', Awaiting) \<longrightarrow> two_way c'"
      using ci tk two by (auto simp: corr_inv_def set_phase_tasks two_way_def split: if_splits)
  qed
  show ?thesis using m c by (simp add: coherent_def)
qed

lemma coherent_write_done: "coherent s \<Longrightarrow> coherent (write_done ext t ok s)"
proof (cases "tasks s t")
  case None
  then show "coherent s \<Longrightarrow> ?thesis" by (simp add: write_done_def)
next
  case (Some cp)
  assume w: "coherent s"
  obtain c ph where cp: "cp = (c, ph)" by (cases cp)
  show ?thesis
  proof (cases ph)
    case Writing
    have tk: "tasks s t = Some (c, Writing)" using Some cp Writing by simp
    let ?s1 = "emit [Dispatch (RawPacketSentEvent (wire_bytes ext c))] s"
    have w1: "coherent ?s1" using w by simp
    have tk1: "tasks ?s1 t = Some (c, Writing)" using tk by simp
    have a: "coherent (settle t out s)" for out
      using w tk by (rule coherent_settle) simp_all
    have b: "coherent (settle t out ?s1)" for out
      using w1 tk1 by (rule coherent_settle) simp_all
    show ?thesis
    proof (cases c)
      case (SendPacketWaitResponse p m)
      have "coherent ((set_phase t Awaiting ?s1)\<lparr>timers := (timers ?s1)(t \<mapsto> d), listeners := listeners ?s1 @ [t]\<rparr>)"
        if "\<not> oneWay p" for d
        using w1 tk1 that unfolding SendPacketWaitResponse by (rule coherent_register)
      then show ?thesis using tk a b SendPacketWaitResponse
        by (simp add: write_done_def Let_def)
    next
      case (SendRaw d f)
      then show ?thesis using tk a b by (simp add: write_done_def Let_def)
    next
      case (Connect r)
      then show ?thesis using tk a b by (simp add: write_done_def Let_def)
    qed
  qed (use Some cp w in \<open>simp_all add: write_done_def\<close>)
qed

text \<open>A connect call is outside the mutex.\<close>

lemma coherent_connect_link:
  assumes w: "coherent s" and tk: "tasks s t = Some (Connect r, Queued)"
  shows "coherent (connect_link t req s)"
proof -
  have st: "coherent (settle t out s')"
    if "coherent s'" and "tasks s' = tasks s" for out s'
  proof -
    have nq: "\<not> queued s' t" "\<not> awaiting s' t"
      using tk that(2) by (simp_all add: queued_def awaiting_def uses_mutex_def)
    have "mutex_inv (settle t out s')"
      using that tk by (intro settle_mutex_inv) (simp_all add: coherent_def uses_mutex_def)
    moreover have "corr_inv (settle t out s')"
      using that nq by (intro settle_corr_inv) (simp_all add: coherent_def)
    ultimately show ?thesis by (simp add: coherent_def)
  qed
  have sp: "coherent (set_phase t ph s')"
    if "coherent s'" and "tasks s' = tasks s" and "ph \<noteq> Awaiting" for ph s'
    using that(1) by (rule coherent_set_phase [where c = "Connect r" and old = Queued])
      (simp_all add: that tk uses_mutex_def)
  have d: "coherent (disconnect s)" using w by (rule coherent_disconnect)
  have e: "coherent (s'\<lparr>deviceListeners := dl\<rparr>) = coherent s'" for s' dl
    by (rule coherent_cong) simp_all
  have g: "coherent (s'\<lparr>gattServer := gs, channel := ch\<rparr>) = coherent s'" for s' gs ch
    by (rule coherent_cong) simp_all
  show ?thesis
    unfolding connect_link_def Let_def
    by (auto split: option.splits sum.splits intro!: st sp simp: d e g)
qed

lemma coherent_invoke: "coherent s \<Longrightarrow> coherent (invoke t c s)"
proof (cases "tasks s t")
  case (Some cp)
  then show "coherent s \<Longrightarrow> ?thesis" by (simp add: invoke_def)
next
  case None
  assume w: "coherent s"
  let ?s1 = "s\<lparr>tasks := (tasks s)(t \<mapsto> (c, Queued))\<rparr>"
  have cr: "\<forall>u. in_critical ?s1 u = in_critical s u"
    using None by (auto simp: in_critical_def)
  have qu: "\<forall>u. queued ?s1 u = (if u = t then uses_mutex c else queued s u)"
    using None by (auto simp: queued_def)
  have aw: "\<forall>u. awaiting ?s1 u = awaiting s u"
    using None by (auto simp: awaiting_def)
  have tw: "t \<notin> set (waiters s)"
    using w None by (auto simp: coherent_def mutex_inv_def queued_def)
  have m1: "mutex_inv ?s1"
    using w cr qu tw by (auto simp: coherent_def mutex_inv_def)
  have c1: "corr_inv ?s1"
    using w aw None by (auto simp: coherent_def corr_inv_def)
  have w1: "coherent ?s1" using m1 c1 by (simp add: coherent_def)
  have con: "coherent (connect_link t req ?s1)" if "c = Connect req" for req
    using w1 by (rule coherent_connect_link [where r = req]) (simp add: that)
  have free: "coherent (set_phase t Admitted (?s1\<lparr>holder := Some t\<rparr>))"
    if "uses_mutex c" "holder s = None"
  proof -
    let ?s2 = "set_phase t Admitted (?s1\<lparr>holder := Some t\<rparr>)"
    have emp: "waiters s = []" using w that(2) by (simp add: coherent_def mutex_inv_def)
    have nc: "\<forall>u. \<not> in_critical s u"
      using w that(2) by (simp add: coherent_def mutex_inv_def)
    have "\<forall>u. in_critical ?s2 u = (u = t)"
      using nc cr that(1) by (simp add: in_critical_set_phase)
    then have "mutex_inv ?s2" using emp by (auto simp: mutex_inv_def)
    moreover have "corr_inv (?s1\<lparr>holder := Some t\<rparr>) = corr_inv ?s1"
      by (rule corr_inv_cong) simp_all
    then have "corr_inv ?s2"
      using c1 aw None by (intro corr_inv_set_phase) (simp_all add: awaiting_def)
    ultimately show ?thesis by (simp add: coherent_def)
  qed
  have busy: "coherent (?s1\<lparr>waiters := waiters ?s1 @ [t]\<rparr>)" if "uses_mutex c" "holder s \<noteq> None"
  proof -
    let ?s2 = "?s1\<lparr>waiters := waiters ?s1 @ [t]\<rparr>"
    have "mutex_inv ?s2"
      using m1 qu tw that by (auto simp: mutex_inv_def)
    moreover have "corr_inv ?s2 = corr_inv ?s1" by (rule corr_inv_cong) simp_all
    then have "corr_inv ?s2" using c1 by simp
    ultimately show ?thesis by (simp add: coherent_def)
  qed
  have forced: "coherent (snd (send_begin t ?s1))" if "\<not> uses_mutex c"
  proof -
    have "coherent (set_phase t ph ?s1)" if "ph \<noteq> Awaiting" for ph
      using w1 by (rule coherent_set_phase [where c = c and old = Queued])
        (simp_all add: that \<open>\<not> uses_mutex c\<close>)
    then show ?thesis by (simp add: send_begin_def)
  qed
  show ?thesis
    using None con free busy forced
    by (cases c) (simp_all add: invoke_def Let_def uses_mutex_def)
qed

lemma callback_start_unfold:
  "tasks s t = Some (c, Admitted) \<Longrightarrow>
   callback_start t s =
     (if channel s = None then settle t (Rejected (Error ''Channel is closed'')) s
      else set_phase t (Sleeping (now s + packetIntervalMs s)) s)"
  by (simp add: callback_start_def send_begin_def settle_via_set_phase)

lemma coherent_callback_start: "coherent s \<Longrightarrow> coherent (callback_start t s)"
proof (cases "tasks s t")
  case None
  then show "coherent s \<Longrightarrow> ?thesis" by (simp add: callback_start_def)
next
  case (Some cp)
  assume w: "coherent s"
  obtain c ph where cp: "cp = (c, ph)" by (cases cp)
  show ?thesis
  proof (cases ph)
    case Admitted
    have tk: "tasks s t = Some (c, Admitted)" using Some cp Admitted by simp
    have a: "coherent (settle t (Rejected (Error ''Channel is closed'')) s)"
      using w tk by (rule coherent_settle) simp_all
    have b: "coherent (set_phase t (Sleeping (now s + packetIntervalMs s)) s)"
      using w tk by (rule coherent_set_phase) simp_all
    show ?thesis using a b by (simp add: callback_start_unfold [OF tk])
  qed (use Some cp w in \<open>simp_all add: callback_start_def\<close>)
qed

lemma coherent_step: "coherent s \<Longrightarrow> coherent (step ext a s)"
proof (cases a)
  case (Advance ms)
  then show "coherent s \<Longrightarrow> ?thesis" by (simp add: coherent_cong [of "s\<lparr>now := now s + ms\<rparr>" s])
next
  case (SetInfo k v)
  then show "coherent s \<Longrightarrow> ?thesis" by (simp add: coherent_cong [of "s\<lparr>info := (info s)(k \<mapsto> v)\<rparr>" s])
qed (simp_all add: coherent_invoke coherent_callback_start coherent_sleep_done coherent_write_done coherent_characteristicvaluechanged
       coherent_timer_fired coherent_disconnect coherent_gattserverdisconnected coherent_connect_finish)

lemma coherent_init: "coherent (init n)"
  by (simp add: coherent_def mutex_inv_def corr_inv_def init_def in_critical_def awaiting_def)

lemma run_snoc: "run ext (acts @ [a]) s = step ext a (run ext acts s)"
  by (simp add: run_def)

lemma coherent_run: "coherent s \<Longrightarrow> coherent (run ext acts s)"
  by (induction acts rule: rev_induct) (simp_all add: run_snoc coherent_step, simp add: run_def)

lemma find_characteristic_find:
  "find_characteristic cs = List.find (\<lambda>c. notify c \<and> writeWithoutResponse c) cs"
  by (induction cs) simp_all

lemma find_app:
  "List.find P (xs @ ys) = (case List.find P xs of Some x \<Rightarrow> Some x | None \<Rightarrow> List.find P ys)"
  by (induction xs) simp_all

lemma find_in_services_sound:
  "find_in_services services = Inr r \<Longrightarrow> r = first_suitable services"
proof (induction services)
  case Nil
  then show ?case by (simp add: first_suitable_def)
next
  case (Cons sv services)
  show ?case
  proof (cases "length (s_uuid sv) < 5")
    case True
    then show ?thesis using Cons by (simp add: first_suitable_def)
  next
    case False
    then show ?thesis using Cons
      by (auto simp: first_suitable_def find_app find_characteristic_find
               split: option.splits)
  qed
qed

lemma find_in_services_total:
  "\<forall>sv \<in> set services. 5 \<le> length (s_uuid sv) \<longrightarrow> getCharacteristics sv \<noteq> None \<Longrightarrow>
   \<exists>r. find_in_services services = Inr r"
  by (induction services) (auto split: option.splits)

lemma tasks_settle_unqueued:
  "tasks s t = Some (c, ph) \<Longrightarrow> \<not> uses_mutex c \<Longrightarrow>
   tasks (settle t out s) = (tasks s)(t \<mapsto> (c, Done out))"
  by (simp add: settle_def)

lemma trace_disconnect:
  "trace (disconnect s) =
     trace s @ [StopHeartbeat] @ (if gattServer s = None then [] else [GattDisconnect])"
  by (auto simp: disconnect_def Let_def)

lemma findSuitable_sound:
  "getPrimaryServices g = Some services \<Longrightarrow>
   findSuitableBluetoothCharacteristic g = Inr r \<Longrightarrow> r = first_suitable services"
  by (simp add: findSuitableBluetoothCharacteristic_def find_in_services_sound)

lemma findSuitable_total:
  assumes "getPrimaryServices g = Some services"
    and "\<forall>sv \<in> set services. 5 \<le> length (s_uuid sv) \<longrightarrow> getCharacteristics sv \<noteq> None"
  shows "findSuitableBluetoothCharacteristic g = Inr (first_suitable services)"
proof -
  obtain r where "find_in_services services = Inr r"
    using find_in_services_total [OF assms(2)] by blast
  then show ?thesis
    using find_in_services_sound assms(1) by (simp add: findSuitableBluetoothCharacteristic_def)
qed

text \<open>
  C7. findSuitableBluetoothCharacteristic passes over every service whose uuid is shorter
  than 5 and returns the first characteristic of the others that has both notify and
  writeWithoutResponse (first_suitable), whenever the transport answers the enumeration.
  connect() uses its answer: with a characteristic whose notifications start, it sets
  gattServer and channel to the server and that characteristic; with none, it calls
  disconnect() on the GATT server and throws, and the client is left with gattServer and
  channel unset.
\<close>

theorem characteristic_selection_and_failure:
  "getPrimaryServices g = Some services \<Longrightarrow>
   (findSuitableBluetoothCharacteristic g = Inr r \<longrightarrow> r = first_suitable services) \<and>
   ((\<forall>sv \<in> set services. 5 \<le> length (s_uuid sv) \<longrightarrow> getCharacteristics sv \<noteq> None) \<longrightarrow>
      findSuitableBluetoothCharacteristic g = Inr (first_suitable services) \<and>
      (tasks s t = None \<and> gatt device = Some g \<and> gatt_connect g \<longrightarrow>
         (let s' = step ext (Call t (Connect (Some device))) s in
            (first_suitable services = None \<longrightarrow>
               tasks s' t = Some (Connect (Some device),
                                  Done (Rejected (Error ''Suitable device characteristic not found''))) \<and>
               trace s' = trace (disconnect s) @ [GattDisconnect] \<and>
               gattServer s' = None \<and> channel s' = None \<and> \<not> isConnected s') \<and>
            (first_suitable services = Some ch \<and> startNotifications ch \<longrightarrow>
               tasks s' t = Some (Connect (Some device), Negotiating device) \<and>
               gattServer s' = Some g \<and> channel s' = Some ch \<and> isConnected s'))))"
proof (intro conjI impI)
  assume g: "getPrimaryServices g = Some services"
  {
    assume "findSuitableBluetoothCharacteristic g = Inr r"
    then show "r = first_suitable services" using g by (intro findSuitable_sound)
  }
  assume al: "\<forall>sv \<in> set services. 5 \<le> length (s_uuid sv) \<longrightarrow> getCharacteristics sv \<noteq> None"
  show f: "findSuitableBluetoothCharacteristic g = Inr (first_suitable services)"
    using g al by (rule findSuitable_total)
  assume a: "tasks s t = None \<and> gatt device = Some g \<and> gatt_connect g"
  let ?c = "Connect (Some device)"
  let ?s1 = "s\<lparr>tasks := (tasks s)(t \<mapsto> (?c, Queued))\<rparr>"
  let ?s2 = "(disconnect ?s1)\<lparr>deviceListeners := deviceListeners (disconnect ?s1) @ [dev_id device]\<rparr>"
  let ?out = "Rejected (Error ''Suitable device characteristic not found'')"
  have no: "let s' = step ext (Call t ?c) s in
               tasks s' t = Some (?c, Done ?out) \<and>
               trace s' = trace (disconnect s) @ [GattDisconnect] \<and>
               gattServer s' = None \<and> channel s' = None \<and> \<not> isConnected s'"
    if n: "first_suitable services = None"
  proof -
    have st: "step ext (Call t ?c) s = settle t ?out (emit [GattDisconnect] ?s2)"
      using a f n by (simp add: invoke_def connect_link_def Let_def)
    have tk: "tasks (emit [GattDisconnect] ?s2) t = Some (?c, Queued)" by simp
    have "tasks (settle t ?out (emit [GattDisconnect] ?s2)) t = Some (?c, Done ?out)"
      using tasks_settle_unqueued [OF tk] by (simp add: uses_mutex_def)
    moreover have "trace (disconnect ?s1) = trace (disconnect s)"
      by (simp add: trace_disconnect)
    ultimately show ?thesis unfolding st Let_def by (simp add: isConnected_def)
  qed
  have yes: "let s' = step ext (Call t ?c) s in
               tasks s' t = Some (?c, Negotiating device) \<and>
               gattServer s' = Some g \<and> channel s' = Some ch \<and> isConnected s'"
    if y: "first_suitable services = Some ch \<and> startNotifications ch"
    using a f y
    by (simp add: invoke_def connect_link_def Let_def set_phase_tasks isConnected_def)
  show "let s' = step ext (Call t ?c) s in
            (first_suitable services = None \<longrightarrow>
               tasks s' t = Some (?c, Done ?out) \<and>
               trace s' = trace (disconnect s) @ [GattDisconnect] \<and>
               gattServer s' = None \<and> channel s' = None \<and> \<not> isConnected s') \<and>
            (first_suitable services = Some ch \<and> startNotifications ch \<longrightarrow>
               tasks s' t = Some (?c, Negotiating device) \<and>
               gattServer s' = Some g \<and> channel s' = Some ch \<and> isConnected s')"
    using no yes unfolding Let_def by blast
qed

theorem characteristic_selection_and_failure_witness:
  "getPrimaryServices sample_server = Some sample_services \<and>
   getPrimaryServices bare_server = Some bare_services \<and>
   findSuitableBluetoothCharacteristic sample_server = Inr (Some sample_characteristic) \<and>
   first_suitable sample_services = Some sample_characteristic \<and>
   findSuitableBluetoothCharacteristic bare_server = Inr None \<and>
   first_suitable bare_services = None \<and>
   tasks (init 10) 0 = None \<and> gatt bare_device = Some bare_server \<and> gatt_connect bare_server \<and>
   gatt sample_device = Some sample_server \<and> gatt_connect sample_server \<and>
   startNotifications sample_characteristic \<and>
   tasks (step sample_ext (Call 0 (Connect (Some bare_device))) (init 10)) 0 =
     Some (Connect (Some bare_device),
           Done (Rejected (Error ''Suitable device characteristic not found''))) \<and>
   trace (step sample_ext (Call 0 (Connect (Some bare_device))) (init 10)) =
     [StopHeartbeat, GattDisconnect] \<and>
   \<not> isConnected (step sample_ext (Call 0 (Connect (Some bare_device))) (init 10)) \<and>
   channel (step sample_ext (Call 0 (Connect (Some sample_device))) (init 10)) =
     Some sample_characteristic"
proof -
  have gs: "getPrimaryServices sample_server = Some sample_services"
    by (simp add: sample_server_def sample_services_def)
  have gb: "getPrimaryServices bare_server = Some bare_services"
    by (simp add: bare_server_def bare_services_def)
  note ts = characteristic_selection_and_failure
      [OF gs, of "Some sample_characteristic" "init 10" 0 sample_device sample_ext sample_characteristic]
  note tb = characteristic_selection_and_failure
      [OF gb, of None "init 10" 0 bare_device sample_ext sample_characteristic]
  have as: "\<forall>sv \<in> set sample_services. 5 \<le> length (s_uuid sv) \<longrightarrow> getCharacteristics sv \<noteq> None"
    by (simp add: sample_services_def)
  have ab: "\<forall>sv \<in> set bare_services. 5 \<le> length (s_uuid sv) \<longrightarrow> getCharacteristics sv \<noteq> None"
    by (simp add: bare_services_def)
  have fs: "first_suitable sample_services = Some sample_characteristic"
    by (simp add: first_suitable_def sample_services_def sample_characteristic_def)
  have fb: "first_suitable bare_services = None"
    by (simp add: first_suitable_def bare_services_def sample_characteristic_def)
  have h: "tasks (init 10) 0 = None" "gatt bare_device = Some bare_server" "gatt_connect bare_server"
    "gatt sample_device = Some sample_server" "gatt_connect sample_server"
    "startNotifications sample_characteristic"
    by (simp_all add: init_def bare_device_def bare_server_def sample_device_def sample_server_def
          sample_characteristic_def)
  have c1: "findSuitableBluetoothCharacteristic sample_server = Inr (Some sample_characteristic)"
    using ts as fs by simp
  have c2: "findSuitableBluetoothCharacteristic bare_server = Inr None"
    using tb ab fb by simp
  have c3: "tasks (step sample_ext (Call 0 (Connect (Some bare_device))) (init 10)) 0 =
     Some (Connect (Some bare_device),
           Done (Rejected (Error ''Suitable device characteristic not found''))) \<and>
     trace (step sample_ext (Call 0 (Connect (Some bare_device))) (init 10)) =
       trace (disconnect (init 10)) @ [GattDisconnect] \<and>
     \<not> isConnected (step sample_ext (Call 0 (Connect (Some bare_device))) (init 10))"
    using tb [unfolded Let_def] ab fb h by blast
  have c4: "channel (step sample_ext (Call 0 (Connect (Some sample_device))) (init 10)) =
     Some sample_characteristic"
    using ts [unfolded Let_def] as fs h by blast
  have tr: "trace (disconnect (init 10)) = [StopHeartbeat]"
    by (simp add: trace_disconnect init_def)
  show ?thesis using gs gb c1 c2 c3 c4 fs fb h tr by simp
qed

lemma linked_fields:
  "gattServer linked = Some sample_server"
  "channel linked = Some sample_characteristic"
  "info linked = Map.empty"
  "packetIntervalMs linked = 10"
  "holder linked = None"
  "waiters linked = []"
  "tasks linked = [0 \<mapsto> (Connect (Some sample_device), Negotiating sample_device)]"
  "listeners linked = []"
  "timers linked = Map.empty"
  "deviceListeners linked = [7]"
  "now linked = 0"
  "trace linked = [StopHeartbeat, ConsoleLog ''Found suitable characteristic bef8d6c9'']"
  by (simp_all add: linked_def run_def invoke_def connect_link_def Let_def init_def
        disconnect_def emit_def sample_device_def sample_server_def sample_characteristic_def
        findSuitableBluetoothCharacteristic_def set_phase_def)

lemma pending_fields:
  "gattServer pending = Some sample_server"
  "channel pending = Some sample_characteristic"
  "info pending = Map.empty"
  "holder pending = Some 2"
  "waiters pending = []"
  "tasks pending 2 = Some (SendPacketWaitResponse sample_packet None, Awaiting)"
  "listeners pending = [2]"
  "timers pending 2 = Some 1010"
  "deviceListeners pending = [7]"
  "now pending = 10"
  by (simp_all add: pending_def run_def invoke_def Let_def linked_fields uses_mutex_def
        send_begin_def set_phase_def sleep_done_def write_done_def emit_def sample_packet_def
        callback_start_def)

lemma listener_fields [simp]:
  "channel (listener t p s) = channel s"
  "gattServer (listener t p s) = gattServer s"
  "info (listener t p s) = info s"
  "now (listener t p s) = now s"
  "packetIntervalMs (listener t p s) = packetIntervalMs s"
  "trace (listener t p s) = trace s"
  "deviceListeners (listener t p s) = deviceListeners s"
  by (simp_all add: listener_def unregister_def split: option.splits call.splits phase.splits prod.splits)

lemma foldl_listener_fields [simp]:
  "channel (foldl (\<lambda>s' t. listener t p s') s ts) = channel s"
  "gattServer (foldl (\<lambda>s' t. listener t p s') s ts) = gattServer s"
  "info (foldl (\<lambda>s' t. listener t p s') s ts) = info s"
  "now (foldl (\<lambda>s' t. listener t p s') s ts) = now s"
  "packetIntervalMs (foldl (\<lambda>s' t. listener t p s') s ts) = packetIntervalMs s"
  "trace (foldl (\<lambda>s' t. listener t p s') s ts) = trace s"
  "deviceListeners (foldl (\<lambda>s' t. listener t p s') s ts) = deviceListeners s"
  by (induction ts arbitrary: s; simp)+

lemma link_kept:
  "keeps_link a \<Longrightarrow> gattServer (step ext a s) = gattServer s \<and> channel (step ext a s) = channel s"
proof (cases a)
  case (Call t c)
  assume "keeps_link a"
  then show ?thesis using Call
    by (cases c) (simp_all add: keeps_link_def invoke_def Let_def del: acquire_next.simps)
next
  case (CallbackStart t)
  then show ?thesis
    by (simp add: callback_start_def send_begin_def
          split: option.splits prod.splits phase.splits del: acquire_next.simps)
next
  case (SleepDone t)
  then show ?thesis
    by (simp add: sleep_done_def split: option.splits prod.splits phase.splits)
next
  case (WriteDone t ok)
  then show ?thesis
    by (simp add: write_done_def Let_def split: option.splits prod.splits phase.splits call.splits)
next
  case (Notification bytes)
  then show ?thesis
    by (simp add: characteristicvaluechanged_def Let_def split: option.splits)
next
  case (TimerFired t)
  then show ?thesis
    by (simp add: timer_fired_def unregister_def split: option.splits prod.splits phase.splits call.splits)
next
  case (NegotiationDone t threw)
  then show ?thesis
    by (simp add: connect_finish_def Let_def split: option.splits prod.splits phase.splits)
qed (simp_all add: keeps_link_def)

text \<open>
  C6. When the negotiation throws, connect() logs and goes on: the call returns a
  ConnectionInfo with the device name and info.connectResult, or FirmwareErrors when there
  is none, after dispatching the connect event with it.
\<close>

theorem negotiation_failure_swallowed:
  "tasks s t = Some (c, Negotiating device) \<Longrightarrow>
   (let r = \<lparr>deviceName = dev_name device,
             result = (case info s ''connectResult'' of
                         Some x \<Rightarrow> x | None \<Rightarrow> FirmwareErrors ext)\<rparr>;
        s' = step ext (NegotiationDone t True) s
    in tasks s' t = Some (c, Done (Established r)) \<and>
       trace s' = trace s @ [ConsoleError ''Unable to fetch printer info.'', ConsoleErrorThrown,
                             Dispatch (ConnectEvent r)] \<and>
       gattServer s' = gattServer s \<and> channel s' = channel s \<and> info s' = info s \<and>
       tasks (step ext (NegotiationDone t False) s) t = Some (c, Done (Established r)))"
  by (simp add: connect_finish_def Let_def set_phase_def emit_def)

theorem negotiation_failure_swallowed_witness:
  "tasks linked 0 = Some (Connect (Some sample_device), Negotiating sample_device) \<and>
   tasks (step sample_ext (NegotiationDone 0 True) linked) 0 =
     Some (Connect (Some sample_device),
           Done (Established \<lparr>deviceName = Some ''D110'', result = 90\<rparr>)) \<and>
   tasks (step sample_ext (NegotiationDone 0 True) (step sample_ext (SetInfo ''connectResult'' 3) linked)) 0 =
     Some (Connect (Some sample_device),
           Done (Established \<lparr>deviceName = Some ''D110'', result = 3\<rparr>))"
  using negotiation_failure_swallowed [of linked 0 "Connect (Some sample_device)" sample_device sample_ext]
    negotiation_failure_swallowed [of "step sample_ext (SetInfo ''connectResult'' 3) linked" 0
       "Connect (Some sample_device)" sample_device sample_ext]
  by (simp add: linked_fields Let_def sample_ext_def sample_device_def)

text \<open>
  C10. isConnected() is true exactly when gattServer and channel are both set. connect()
  sets them right after startNotifications, before the negotiation: the call is then in the
  negotiation with isConnected() true and no connect event dispatched; sends, notifications,
  timers and info updates leave the two fields alone; the end of the negotiation adds the
  connect event and changes no field of the client, so nothing the client holds tells the
  negotiation from the connected state.
\<close>

theorem connected_during_negotiation:
  "(isConnected s \<longleftrightarrow> gattServer s \<noteq> None \<and> channel s \<noteq> None) \<and>
   (keeps_link a \<longrightarrow> isConnected (step ext a s) = isConnected s) \<and>
   (tasks s t = None \<and> gatt device = Some g \<and> gatt_connect g \<and>
    findSuitableBluetoothCharacteristic g = Inr (Some ch) \<and> startNotifications ch \<longrightarrow>
      (let s1 = step ext (Call t (Connect (Some device))) s;
           s2 = step ext (NegotiationDone t threw) s1
       in isConnected s1 \<and> gattServer s1 = Some g \<and> channel s1 = Some ch \<and>
          tasks s1 t = Some (Connect (Some device), Negotiating device) \<and>
          trace s1 = trace (disconnect s) @ [ConsoleLog (''Found suitable characteristic '' @ c_uuid ch)] \<and>
          isConnected s2 \<and>
          (\<exists>r. last (trace s2) = Dispatch (ConnectEvent r) \<and>
               tasks s2 t = Some (Connect (Some device), Done (Established r))) \<and>
          s2\<lparr>tasks := tasks s1, trace := trace s1\<rparr> = s1))"
proof (intro conjI impI)
  show "isConnected s \<longleftrightarrow> gattServer s \<noteq> None \<and> channel s \<noteq> None"
    by (simp add: isConnected_def)
next
  assume "keeps_link a"
  then show "isConnected (step ext a s) = isConnected s"
    using link_kept [of a ext s] by (simp add: isConnected_def)
next
  assume a: "tasks s t = None \<and> gatt device = Some g \<and> gatt_connect g \<and>
    findSuitableBluetoothCharacteristic g = Inr (Some ch) \<and> startNotifications ch"
  let ?c = "Connect (Some device)"
  let ?s0 = "s\<lparr>tasks := (tasks s)(t \<mapsto> (?c, Queued))\<rparr>"
  let ?s3 = "emit [ConsoleLog (''Found suitable characteristic '' @ c_uuid ch)]
               ((disconnect ?s0)\<lparr>deviceListeners := deviceListeners (disconnect ?s0) @ [dev_id device]\<rparr>)"
  let ?s1 = "set_phase t (Negotiating device) (?s3\<lparr>gattServer := Some g, channel := Some ch\<rparr>)"
  have st: "step ext (Call t ?c) s = ?s1"
    using a by (simp add: invoke_def connect_link_def Let_def)
  have tk: "tasks ?s1 t = Some (?c, Negotiating device)"
    by (simp add: set_phase_tasks)
  have tr: "trace ?s1 = trace (disconnect s) @ [ConsoleLog (''Found suitable characteristic '' @ c_uuid ch)]"
    by (simp add: trace_disconnect)
  have fin: "connect_finish ext t threw ?s1 =
      set_phase t (Done (Established r)) (emit (es @ [Dispatch (ConnectEvent r)]) ?s1)"
    if "r = \<lparr>deviceName = dev_name device,
             result = (case info ?s1 ''connectResult'' of Some x \<Rightarrow> x | None \<Rightarrow> FirmwareErrors ext)\<rparr>"
      and "es = (if threw then [ConsoleError ''Unable to fetch printer info.'', ConsoleErrorThrown] else [])"
    for r es
    using tk that by (simp add: connect_finish_def Let_def emit_def)
  define r where "r = \<lparr>deviceName = dev_name device,
             result = (case info ?s1 ''connectResult'' of Some x \<Rightarrow> x | None \<Rightarrow> FirmwareErrors ext)\<rparr>"
  define es where "es = (if threw then [ConsoleError ''Unable to fetch printer info.'', ConsoleErrorThrown] else [])"
  let ?s2 = "set_phase t (Done (Established r)) (emit (es @ [Dispatch (ConnectEvent r)]) ?s1)"
  have s2: "step ext (NegotiationDone t threw) ?s1 = ?s2"
    using fin [OF r_def es_def] by simp
  have same: "?s2\<lparr>tasks := tasks ?s1, trace := trace ?s1\<rparr> = ?s1"
    using tk by (simp add: set_phase_def emit_def)
  have tk2: "tasks ?s2 t = Some (?c, Done (Established r))"
    using tk by (simp add: set_phase_tasks)
  show "let s1 = step ext (Call t ?c) s; s2 = step ext (NegotiationDone t threw) s1
       in isConnected s1 \<and> gattServer s1 = Some g \<and> channel s1 = Some ch \<and>
          tasks s1 t = Some (?c, Negotiating device) \<and>
          trace s1 = trace (disconnect s) @ [ConsoleLog (''Found suitable characteristic '' @ c_uuid ch)] \<and>
          isConnected s2 \<and>
          (\<exists>r. last (trace s2) = Dispatch (ConnectEvent r) \<and>
               tasks s2 t = Some (?c, Done (Established r))) \<and>
          s2\<lparr>tasks := tasks s1, trace := trace s1\<rparr> = s1"
    unfolding st Let_def s2
    using tk tr same tk2 by (auto simp: isConnected_def)
qed

theorem connected_during_negotiation_witness:
  "keeps_link (Call 2 (SendPacketWaitResponse sample_packet None)) \<and>
   tasks (init 10) 0 = None \<and> gatt sample_device = Some sample_server \<and>
   gatt_connect sample_server \<and>
   findSuitableBluetoothCharacteristic sample_server = Inr (Some sample_characteristic) \<and>
   startNotifications sample_characteristic \<and>
   isConnected linked \<and>
   isConnected (step sample_ext (Call 2 (SendPacketWaitResponse sample_packet None)) linked) \<and>
   tasks linked 0 = Some (Connect (Some sample_device), Negotiating sample_device) \<and>
   isConnected (step sample_ext (NegotiationDone 0 False) linked)"
  using connected_during_negotiation [of linked "Call 2 (SendPacketWaitResponse sample_packet None)"
      sample_ext 0 sample_device sample_server sample_characteristic False]
    connected_during_negotiation [of "init 10" Disconnect
      sample_ext 0 sample_device sample_server sample_characteristic False]
  by (simp add: keeps_link_def linked_def run_def Let_def init_def sample_device_def
        sample_server_def sample_characteristic_def findSuitableBluetoothCharacteristic_def)

lemma gattserverdisconnected_registered:
  "dev \<in> set (deviceListeners s) \<Longrightarrow>
   gattServer (gattserverdisconnected dev s) = None \<and>
   channel (gattserverdisconnected dev s) = None \<and>
   info (gattserverdisconnected dev s) = Map.empty"
proof -
  assume "dev \<in> set (deviceListeners s)"
  then obtain d ds where f: "filter (\<lambda>d. d = dev) (deviceListeners s) = ds @ [d]"
    by (metis (mono_tags, lifting) filter_empty_conv rev_exhaust)
  show ?thesis by (simp add: gattserverdisconnected_def f)
qed

lemma gattserverdisconnected_trace:
  "trace (gattserverdisconnected dev s) =
     trace s @ replicate (length (filter (\<lambda>d. d = dev) (deviceListeners s))) (Dispatch DisconnectEvent)"
proof -
  have "trace (foldl (\<lambda>s' d. disconnectListener d s') s ds) =
          trace s @ replicate (length ds) (Dispatch DisconnectEvent)" for ds
    by (induction ds arbitrary: s)
       (simp_all add: disconnectListener_def emit_def replicate_append_same)
  then show ?thesis by (simp add: gattserverdisconnected_def)
qed

lemma run_Nil: "run ext [] s = s"
  by (simp add: run_def)

lemma run_Cons: "run ext (a # acts) s = run ext acts (step ext a s)"
  by (simp add: run_def)

lemma coherent_reachable: "coherent (run ext acts (init n))"
  by (rule coherent_run) (rule coherent_init)

text \<open>What the release does to the lock, the queue and the calls.\<close>

declare acquire_next.simps [simp del]

lemma holder_acquire_next:
  "holder (acquire_next ws s) =
     (if channel s = None then None else case ws of [] \<Rightarrow> None | w # ws' \<Rightarrow> Some w)"
  by (induction ws arbitrary: s) (auto simp: send_begin_def acquire_next.simps)

lemma waiters_acquire_next:
  "waiters (acquire_next ws s) = (if channel s = None then [] else tl ws)"
  by (induction ws arbitrary: s) (auto simp: send_begin_def acquire_next.simps)

lemma tasks_acquire_next_closed:
  "channel s = None \<Longrightarrow>
   tasks (acquire_next ws s) u =
     (if u \<in> set ws
      then map_option (\<lambda>(c, old). (c, Done (Rejected (Error ''Channel is closed'')))) (tasks s u)
      else tasks s u)"
proof (induction ws arbitrary: s)
  case Nil
  then show ?case by (simp add: acquire_next.simps)
next
  case (Cons w ws)
  let ?s1 = "set_phase w (Done (Rejected (Error ''Channel is closed''))) (s\<lparr>holder := Some w, waiters := ws\<rparr>)"
  have "acquire_next (w # ws) s = acquire_next ws ?s1"
    using Cons.prems by (simp add: send_begin_def acquire_next.simps)
  moreover have "channel ?s1 = None" using Cons.prems by simp
  ultimately show ?case using Cons.IH [of ?s1]
    by (cases "tasks s w") (auto simp: set_phase_tasks)
qed

lemma tasks_acquire_next_open:
  "channel s \<noteq> None \<Longrightarrow>
   tasks (acquire_next ws s) =
     (case ws of [] \<Rightarrow> tasks s
      | w # ws' \<Rightarrow> tasks (set_phase w (Sleeping (now s + packetIntervalMs s)) s))"
  by (cases ws) (auto simp: send_begin_def set_phase_def acquire_next.simps split: option.splits)

lemma tasks_acquire_next_other:
  "u \<notin> set ws \<Longrightarrow> tasks (acquire_next ws s) u = tasks s u"
  by (cases "channel s = None")
     (auto simp: tasks_acquire_next_closed tasks_acquire_next_open set_phase_tasks split: list.splits)

lemma tasks_settle_self:
  "tasks s t = Some (c, ph) \<Longrightarrow> t \<notin> set (waiters s) \<Longrightarrow>
   tasks (settle t out s) t = Some (c, Done out)"
  by (simp add: settle_via_set_phase tasks_acquire_next_other set_phase_tasks)

lemma waiting_not_in_section:
  "coherent s \<Longrightarrow> tasks s t = Some (c, ph) \<Longrightarrow> ph \<noteq> Queued \<Longrightarrow> t \<notin> set (waiters s)"
  by (auto simp: coherent_def mutex_inv_def queued_def)

text \<open>A call that waits for its response holds the mutex and owns the only listener.\<close>

lemma awaiting_alone:
  assumes "coherent s" and "tasks s t = Some (c, Awaiting)"
  shows "listeners s = [t] \<and> holder s = Some t \<and> timers s t \<noteq> None \<and> uses_mutex c"
proof -
  have ci: "corr_inv s" and mi: "mutex_inv s" using assms(1) by (simp_all add: coherent_def)
  have hold: "holder s = Some u" if aw: "awaiting s u" for u
  proof -
    obtain c' where tk: "tasks s u = Some (c', Awaiting)"
      using aw by (cases "tasks s u") (auto simp: awaiting_def)
    then have "two_way c'" using ci by (simp add: corr_inv_def)
    then have "uses_mutex c'" by (cases c') (simp_all add: two_way_def uses_mutex_def)
    then have "in_critical s u" using tk by (simp add: in_critical_def)
    then show ?thesis using mi by (simp add: mutex_inv_def)
  qed
  have at: "awaiting s t" using assms(2) by (simp add: awaiting_def)
  have only: "u = t" if "u \<in> set (listeners s)" for u
  proof -
    have "awaiting s u" using ci that by (simp add: corr_inv_def)
    then show ?thesis using hold [of u] hold [OF at] by simp
  qed
  have mem: "t \<in> set (listeners s)" using ci at by (simp add: corr_inv_def)
  have dist: "distinct (listeners s)" using ci by (simp add: corr_inv_def)
  have l: "listeners s = [t]"
  proof (cases "listeners s")
    case Nil
    then show ?thesis using mem by simp
  next
    case (Cons x xs)
    have "x = t" using only [of x] Cons by simp
    moreover have "xs = []"
    proof (cases xs)
      case (Cons y ys)
      then have "y = t" using only [of y] \<open>listeners s = x # xs\<close> by simp
      then show ?thesis using dist \<open>listeners s = x # xs\<close> Cons \<open>x = t\<close> by simp
    qed simp
    ultimately show ?thesis using Cons by simp
  qed
  have "two_way c" using ci assms(2) by (simp add: corr_inv_def)
  then have "uses_mutex c" by (cases c) (simp_all add: two_way_def uses_mutex_def)
  then show ?thesis using l hold [OF at] ci at by (simp add: corr_inv_def)
qed

lemma awaiting_call:
  assumes "coherent s" and "tasks s t = Some (c, Awaiting)"
  shows "\<exists>p m. c = SendPacketWaitResponse p m \<and> \<not> oneWay p"
proof -
  have "two_way c" using assms by (simp add: coherent_def corr_inv_def)
  then show ?thesis by (cases c) (simp_all add: two_way_def)
qed

lemma settle_gate:
  "tasks s t = Some (c, ph) \<Longrightarrow> uses_mutex c \<Longrightarrow>
   holder (settle t out s) =
     (if channel s = None then None else case waiters s of [] \<Rightarrow> None | w # ws \<Rightarrow> Some w) \<and>
   waiters (settle t out s) = (if channel s = None then [] else tl (waiters s))"
  by (simp add: settle_via_set_phase holder_acquire_next waiters_acquire_next)

lemma settle_gate_unused:
  "tasks s t = Some (c, ph) \<Longrightarrow> \<not> uses_mutex c \<Longrightarrow>
   holder (settle t out s) = holder s \<and> waiters (settle t out s) = waiters s"
  by (simp add: settle_via_set_phase)

lemma settle_admits_head:
  assumes "mutex_inv s" and "tasks s t = Some (c, ph)" and "uses_mutex c" and "ph \<noteq> Queued"
    and "waiters s = w # ws" and "channel s \<noteq> None"
  shows "\<exists>cw. tasks s w = Some (cw, Queued) \<and>
              tasks (settle t out s) w = Some (cw, Sleeping (now s + packetIntervalMs s))"
proof -
  have "queued s w" using assms(1,5) by (simp add: mutex_inv_def)
  then obtain cw where cw: "tasks s w = Some (cw, Queued)"
    by (cases "tasks s w") (auto simp: queued_def)
  then have "w \<noteq> t" using assms(2,4) by auto
  then have "tasks (settle t out s) w = Some (cw, Sleeping (now s + packetIntervalMs s))"
    using assms(2,3,5,6) cw
    by (simp add: settle_via_set_phase tasks_acquire_next_open set_phase_tasks)
  then show ?thesis using cw by simp
qed

lemma settle_rejects_all:
  assumes "mutex_inv s" and "tasks s t = Some (c, ph)" and "uses_mutex c" and "ph \<noteq> Queued"
    and "w \<in> set (waiters s)" and "channel s = None"
  shows "\<exists>cw. tasks s w = Some (cw, Queued) \<and>
              tasks (settle t out s) w = Some (cw, Done (Rejected (Error ''Channel is closed'')))"
proof -
  have "queued s w" using assms(1,5) by (simp add: mutex_inv_def)
  then obtain cw where cw: "tasks s w = Some (cw, Queued)"
    by (cases "tasks s w") (auto simp: queued_def)
  then have "w \<noteq> t" using assms(2,4) by auto
  then have "tasks (settle t out s) w = Some (cw, Done (Rejected (Error ''Channel is closed'')))"
    using assms(2,3,5,6) cw
    by (simp add: settle_via_set_phase tasks_acquire_next_closed set_phase_tasks)
  then show ?thesis using cw by simp
qed

text \<open>The listener of a pending exchange, on a packet.\<close>

lemma listener_on_pending:
  assumes "coherent s" and "tasks s t = Some (SendPacketWaitResponse pk m, Awaiting)"
  shows "(matches pk r \<longrightarrow>
            tasks (listener t r s) t = Some (SendPacketWaitResponse pk m, Done (Resolved r)) \<and>
            listeners (listener t r s) = [] \<and> timers (listener t r s) t = None) \<and>
         (\<not> matches pk r \<longrightarrow> listener t r s = s)"
proof -
  let ?s0 = "unregister t (s\<lparr>timers := (timers s)(t := None)\<rparr>)"
  have l: "listeners s = [t]" using awaiting_alone [OF assms] by simp
  have nw: "t \<notin> set (waiters ?s0)"
    using waiting_not_in_section [OF assms(1,2)] by simp
  have tk: "tasks ?s0 t = Some (SendPacketWaitResponse pk m, Awaiting)" using assms(2) by simp
  have "tasks (settle t (Resolved r) ?s0) t = Some (SendPacketWaitResponse pk m, Done (Resolved r))"
    using tk nw by (rule tasks_settle_self)
  then show ?thesis using assms(2) l by (simp add: listener_def)
qed

lemma notification_on_pending:
  assumes "coherent s" and "tasks s t = Some (SendPacketWaitResponse pk m, Awaiting)"
    and "fromBytes ext bytes = Some r"
  shows "step ext (Notification bytes) s =
           emit (if inResponseCommandId ext (command r) then []
                 else [ConsoleWarn (''Unknown response command: 0x'' @ numberToHex ext (command r))])
             (listener t r (emit [Dispatch (RawPacketReceivedEvent bytes),
                                  Dispatch (PacketReceivedEvent r)] s))"
proof -
  have l: "listeners s = [t]" using awaiting_alone [OF assms(1,2)] by simp
  have e: "emit [b] (emit [a] s) = emit [a, b] s" for a b
    by (simp add: emit_def)
  have z: "emit [] s' = s'" for s' :: client
    by (simp add: emit_def)
  show ?thesis using assms(3) l
    by (simp add: characteristicvaluechanged_def Let_def e z)
qed

lemma notification_trace:
  "fromBytes ext bytes = Some p \<Longrightarrow>
   trace (step ext (Notification bytes) s) =
     trace s @ [Dispatch (RawPacketReceivedEvent bytes), Dispatch (PacketReceivedEvent p)] @
       (if inResponseCommandId ext (command p) then []
        else [ConsoleWarn (''Unknown response command: 0x'' @ numberToHex ext (command p))])"
  by (simp add: characteristicvaluechanged_def Let_def)

lemma notification_resolves:
  assumes "coherent s" and "tasks s t = Some (SendPacketWaitResponse pk m, Awaiting)"
    and "fromBytes ext bytes = Some r"
  shows "(matches pk r \<longrightarrow>
            tasks (step ext (Notification bytes) s) t =
              Some (SendPacketWaitResponse pk m, Done (Resolved r)) \<and>
            listeners (step ext (Notification bytes) s) = [] \<and>
            timers (step ext (Notification bytes) s) t = None) \<and>
         (\<not> matches pk r \<longrightarrow>
            tasks (step ext (Notification bytes) s) = tasks s \<and>
            listeners (step ext (Notification bytes) s) = listeners s \<and>
            timers (step ext (Notification bytes) s) = timers s \<and>
            holder (step ext (Notification bytes) s) = holder s \<and>
            waiters (step ext (Notification bytes) s) = waiters s)"
proof -
  let ?s1 = "emit [Dispatch (RawPacketReceivedEvent bytes), Dispatch (PacketReceivedEvent r)] s"
  have w1: "coherent ?s1" using assms(1) by simp
  have tk1: "tasks ?s1 t = Some (SendPacketWaitResponse pk m, Awaiting)" using assms(2) by simp
  show ?thesis
    unfolding notification_on_pending [OF assms]
    using listener_on_pending [OF w1 tk1, of r] by auto
qed

lemma pending_reachable: "pending = run sample_ext pending_acts (init 10)"
  by (simp add: pending_def linked_def pending_acts_def run_def)

lemma pending_any_fields:
  "tasks pending_any 2 = Some (SendPacketWaitResponse wildcard_packet None, Awaiting)"
  "trace pending_any = [StopHeartbeat, ConsoleLog ''Found suitable characteristic bef8d6c9'',
      WriteValueWithoutResponse [1], Dispatch (RawPacketSentEvent [1])]"
proof -
  have eq: "pending_any = run sample_ext [Call 2 (SendPacketWaitResponse wildcard_packet None),
          CallbackStart 2, Advance 10, SleepDone 2, WriteDone 2 True] linked"
    by (simp add: pending_any_def pending_any_acts_def linked_def run_def)
  show "tasks pending_any 2 = Some (SendPacketWaitResponse wildcard_packet None, Awaiting)"
    "trace pending_any = [StopHeartbeat, ConsoleLog ''Found suitable characteristic bef8d6c9'',
      WriteValueWithoutResponse [1], Dispatch (RawPacketSentEvent [1])]"
    unfolding eq
    by (simp_all add: run_def invoke_def callback_start_def Let_def linked_fields uses_mutex_def acquire_next.simps
        send_begin_def set_phase_def sleep_done_def write_done_def emit_def wildcard_packet_def
        wire_bytes_def sample_ext_def)
qed

text \<open>
  C8, as the code has it. The handler decodes first: when NiimbotPacket.fromBytes throws,
  nothing is published. When it returns a packet, rawpacketreceived is dispatched with the
  bytes, then packetreceived with the packet, and only then, for a command that is not in
  ResponseCommandId, the warning; such a packet resolves a pending request whose
  validResponseIds is empty.
\<close>

theorem notification_events_in_order:
  "(fromBytes ext bytes = None \<longrightarrow> step ext (Notification bytes) s = s) \<and>
   (fromBytes ext bytes = Some p \<longrightarrow>
      trace (step ext (Notification bytes) s) =
        trace s @ [Dispatch (RawPacketReceivedEvent bytes), Dispatch (PacketReceivedEvent p)] @
          (if inResponseCommandId ext (command p) then []
           else [ConsoleWarn (''Unknown response command: 0x'' @ numberToHex ext (command p))]) \<and>
      (s = run ext acts (init n) \<and>
       tasks s t = Some (SendPacketWaitResponse pk m, Awaiting) \<and> validResponseIds pk = [] \<longrightarrow>
         tasks (step ext (Notification bytes) s) t =
           Some (SendPacketWaitResponse pk m, Done (Resolved p))))"
proof (intro conjI impI)
  assume "fromBytes ext bytes = None"
  then show "step ext (Notification bytes) s = s"
    by (simp add: characteristicvaluechanged_def)
next
  assume "fromBytes ext bytes = Some p"
  then show "trace (step ext (Notification bytes) s) =
        trace s @ [Dispatch (RawPacketReceivedEvent bytes), Dispatch (PacketReceivedEvent p)] @
          (if inResponseCommandId ext (command p) then []
           else [ConsoleWarn (''Unknown response command: 0x'' @ numberToHex ext (command p))])"
    by (rule notification_trace)
next
  assume d: "fromBytes ext bytes = Some p"
    and a: "s = run ext acts (init n) \<and>
       tasks s t = Some (SendPacketWaitResponse pk m, Awaiting) \<and> validResponseIds pk = []"
  have w: "coherent s" using a coherent_reachable by simp
  have tk: "tasks s t = Some (SendPacketWaitResponse pk m, Awaiting)" using a by blast
  have "validResponseIds pk = []" using a by blast
  then have "matches pk p" by (simp add: matches_def)
  then show "tasks (step ext (Notification bytes) s) t =
           Some (SendPacketWaitResponse pk m, Done (Resolved p))"
    using notification_resolves [OF w tk d] by simp
qed

theorem notification_events_in_order_witness:
  "fromBytes sample_ext [] = None \<and>
   fromBytes sample_ext [5, 5, 5] =
     Some \<lparr>command = 3, payload = [5, 5, 5], oneWay = False, validResponseIds = []\<rparr> \<and>
   \<not> inResponseCommandId sample_ext 3 \<and>
   tasks pending_any 2 = Some (SendPacketWaitResponse wildcard_packet None, Awaiting) \<and>
   validResponseIds wildcard_packet = [] \<and>
   trace (step sample_ext (Notification [5, 5, 5]) pending_any) =
     trace pending_any @
       [Dispatch (RawPacketReceivedEvent [5, 5, 5]),
        Dispatch (PacketReceivedEvent
          \<lparr>command = 3, payload = [5, 5, 5], oneWay = False, validResponseIds = []\<rparr>),
        ConsoleWarn ''Unknown response command: 0xn''] \<and>
   tasks (step sample_ext (Notification [5, 5, 5]) pending_any) 2 =
     Some (SendPacketWaitResponse wildcard_packet None,
           Done (Resolved \<lparr>command = 3, payload = [5, 5, 5], oneWay = False,
                           validResponseIds = []\<rparr>)) \<and>
   step sample_ext (Notification []) pending_any = pending_any"
proof -
  let ?p = "\<lparr>command = 3, payload = [5, 5, 5], oneWay = False, validResponseIds = []\<rparr>"
  note t = notification_events_in_order
             [of sample_ext "[5, 5, 5]" pending_any ?p pending_any_acts 10 2 wildcard_packet None]
  note u = notification_events_in_order [of sample_ext "[]" pending_any]
  have d: "fromBytes sample_ext [5, 5, 5] = Some ?p" by (simp add: sample_ext_def)
  have e: "fromBytes sample_ext [] = None" by (simp add: sample_ext_def)
  have r: "pending_any = run sample_ext pending_any_acts (init 10)" by (simp add: pending_any_def)
  have tk: "tasks pending_any 2 = Some (SendPacketWaitResponse wildcard_packet None, Awaiting)"
    by (rule pending_any_fields)
  have v: "validResponseIds wildcard_packet = []" by (simp add: wildcard_packet_def)
  have c1: "trace (step sample_ext (Notification [5, 5, 5]) pending_any) =
        trace pending_any @ [Dispatch (RawPacketReceivedEvent [5, 5, 5]), Dispatch (PacketReceivedEvent ?p)] @
          (if inResponseCommandId sample_ext (command ?p) then []
           else [ConsoleWarn (''Unknown response command: 0x'' @ numberToHex sample_ext (command ?p))])"
    using t d by blast
  have c2: "tasks (step sample_ext (Notification [5, 5, 5]) pending_any) 2 =
           Some (SendPacketWaitResponse wildcard_packet None, Done (Resolved ?p))"
    using t d r tk v by blast
  have c3: "step sample_ext (Notification []) pending_any = pending_any"
    using u e by blast
  have w: "\<not> inResponseCommandId sample_ext 3" by (simp add: sample_ext_def)
  have h: "numberToHex sample_ext 3 = ''n''" by (simp add: sample_ext_def)
  show ?thesis using c1 c2 c3 d e tk v w h by simp
qed

text \<open>
  C8, as stated, fails: with a decoder that throws on the empty byte sequence, an inbound
  notification with no bytes publishes no rawpacketreceived event (and nothing else).
\<close>

theorem notification_always_published_counterexample:
  "fromBytes sample_ext [] = None \<and>
   Dispatch (RawPacketReceivedEvent []) \<notin> set (trace (step sample_ext (Notification []) pending_any)) \<and>
   trace (step sample_ext (Notification []) pending_any) = trace pending_any"
  by (simp add: characteristicvaluechanged_def sample_ext_def pending_any_fields)

text \<open>
  C4. A request waits for its response. With an empty validResponseIds the next decoded
  inbound packet resolves it, whatever its command. With a non-empty validResponseIds an
  inbound packet resolves it exactly when its command is among them; any other packet
  leaves the calls, the listener and the timer as they were. Resolving removes the
  listener and the timer.
\<close>

theorem response_matching:
  "s = run ext acts (init n) \<Longrightarrow>
   tasks s t = Some (SendPacketWaitResponse pk m, Awaiting) \<Longrightarrow>
   fromBytes ext bytes = Some r \<Longrightarrow>
   (let s' = step ext (Notification bytes) s;
        resolved = (tasks s' t = Some (SendPacketWaitResponse pk m, Done (Resolved r)))
    in (validResponseIds pk = [] \<longrightarrow> resolved) \<and>
       (validResponseIds pk \<noteq> [] \<longrightarrow>
          (resolved \<longleftrightarrow> command r \<in> set (validResponseIds pk)) \<and>
          (command r \<notin> set (validResponseIds pk) \<longrightarrow>
             tasks s' = tasks s \<and> listeners s' = listeners s \<and> timers s' = timers s \<and>
             holder s' = holder s)) \<and>
       (resolved \<longrightarrow> t \<notin> set (listeners s') \<and> timers s' t = None) \<and>
       t \<in> set (listeners s) \<and> timers s t \<noteq> None)"
proof -
  assume a: "s = run ext acts (init n)"
    and tk: "tasks s t = Some (SendPacketWaitResponse pk m, Awaiting)"
    and d: "fromBytes ext bytes = Some r"
  have w: "coherent s" using a coherent_reachable by simp
  note n = notification_resolves [OF w tk d]
  note al = awaiting_alone [OF w tk]
  show ?thesis
  proof (cases "matches pk r")
    case True
    then show ?thesis using n al by (auto simp: Let_def matches_def)
  next
    case False
    then show ?thesis using n al tk by (auto simp: Let_def matches_def)
  qed
qed

theorem response_matching_witness:
  "tasks pending 2 = Some (SendPacketWaitResponse sample_packet None, Awaiting) \<and>
   validResponseIds sample_packet = [2] \<and>
   fromBytes sample_ext [5, 5] =
     Some \<lparr>command = 2, payload = [5, 5], oneWay = False, validResponseIds = []\<rparr> \<and>
   fromBytes sample_ext [5, 5, 5] =
     Some \<lparr>command = 3, payload = [5, 5, 5], oneWay = False, validResponseIds = []\<rparr> \<and>
   tasks (step sample_ext (Notification [5, 5]) pending) 2 =
     Some (SendPacketWaitResponse sample_packet None,
           Done (Resolved \<lparr>command = 2, payload = [5, 5], oneWay = False,
                           validResponseIds = []\<rparr>)) \<and>
   tasks (step sample_ext (Notification [5, 5, 5]) pending) = tasks pending \<and>
   listeners (step sample_ext (Notification [5, 5, 5]) pending) = [2]"
  using response_matching [OF pending_reachable, of 2 sample_packet None "[5, 5]"
      "\<lparr>command = 2, payload = [5, 5], oneWay = False, validResponseIds = []\<rparr>"]
    response_matching [OF pending_reachable, of 2 sample_packet None "[5, 5, 5]"
      "\<lparr>command = 3, payload = [5, 5, 5], oneWay = False, validResponseIds = []\<rparr>"]
  by (simp add: pending_fields Let_def sample_ext_def sample_packet_def)

lemma unregister_rest [simp]:
  "channel (unregister t s) = channel s"
  "gattServer (unregister t s) = gattServer s"
  "info (unregister t s) = info s"
  "now (unregister t s) = now s"
  "packetIntervalMs (unregister t s) = packetIntervalMs s"
  "trace (unregister t s) = trace s"
  "deviceListeners (unregister t s) = deviceListeners s"
  by (simp_all add: unregister_def)

lemma run_append: "run ext (xs @ ys) s = run ext ys (run ext xs s)"
  by (simp add: run_def)

lemma writing_oneway_fields:
  "tasks writing_oneway 2 = Some (SendPacketWaitResponse oneway_packet None, Writing)"
  "listeners writing_oneway = []"
  "timers writing_oneway = Map.empty"
proof -
  have eq: "writing_oneway = run sample_ext [Call 2 (SendPacketWaitResponse oneway_packet None),
          CallbackStart 2, Advance 10, SleepDone 2] linked"
    by (simp add: writing_oneway_def writing_oneway_acts_def linked_def run_def)
  show "tasks writing_oneway 2 = Some (SendPacketWaitResponse oneway_packet None, Writing)"
    "listeners writing_oneway = []" "timers writing_oneway = Map.empty"
    unfolding eq
    by (simp_all add: run_def invoke_def callback_start_def Let_def linked_fields uses_mutex_def acquire_next.simps
        send_begin_def set_phase_def sleep_done_def emit_def)
qed

lemma writing_fields:
  "tasks writing 2 = Some (SendPacketWaitResponse sample_packet None, Writing)"
  "now writing = 10"
proof -
  have eq: "writing = run sample_ext [Call 2 (SendPacketWaitResponse sample_packet None),
          CallbackStart 2, Call 3 (SendRaw [9] False), Advance 10, SleepDone 2] linked"
    by (simp add: writing_def writing_acts_def linked_def run_def)
  show "tasks writing 2 = Some (SendPacketWaitResponse sample_packet None, Writing)"
    "now writing = 10"
    unfolding eq
    by (simp_all add: run_def invoke_def callback_start_def Let_def linked_fields uses_mutex_def acquire_next.simps
        send_begin_def set_phase_def sleep_done_def emit_def)
qed

lemma overdue_fields:
  "tasks overdue 2 = Some (SendPacketWaitResponse sample_packet None, Awaiting)"
  "tasks overdue 3 = Some (SendRaw [9] False, Queued)"
  "timers overdue 2 = Some 1010"
  "now overdue = 1010"
  "waiters overdue = [3]"
  "channel overdue = Some sample_characteristic"
  "packetIntervalMs overdue = 10"
proof -
  have eq: "overdue = run sample_ext [Call 2 (SendPacketWaitResponse sample_packet None),
          CallbackStart 2, Call 3 (SendRaw [9] False), Advance 10, SleepDone 2, WriteDone 2 True,
          Advance 1000] linked"
    by (simp add: overdue_def overdue_acts_def writing_acts_def linked_def run_def)
  show "tasks overdue 2 = Some (SendPacketWaitResponse sample_packet None, Awaiting)"
    "tasks overdue 3 = Some (SendRaw [9] False, Queued)"
    "timers overdue 2 = Some 1010"
    "now overdue = 1010"
    "waiters overdue = [3]"
    "channel overdue = Some sample_characteristic"
    "packetIntervalMs overdue = 10"
    unfolding eq
    by (simp_all add: run_def invoke_def callback_start_def Let_def linked_fields uses_mutex_def acquire_next.simps
        send_begin_def set_phase_def sleep_done_def write_done_def emit_def sample_packet_def
        callback_start_def)
qed

text \<open>
  C3. A sendPacketWaitResponse call with a oneWay packet never has a packetreceived
  listener or a timer, and is never in the waiting promise; when its write completes it
  resolves at once with new NiimbotPacket(ResponseCommandId.Invalid, []), after the
  rawpacketsent event, with listeners and timers untouched.
\<close>

theorem one_way_returns_after_write:
  "s = run ext acts (init n) \<Longrightarrow>
   tasks s t = Some (SendPacketWaitResponse p m, ph) \<Longrightarrow> oneWay p \<Longrightarrow>
   t \<notin> set (listeners s) \<and> timers s t = None \<and> ph \<noteq> Awaiting \<and>
   (ph = Writing \<longrightarrow>
      (let s' = step ext (WriteDone t True) s in
         tasks s' t = Some (SendPacketWaitResponse p m,
                            Done (Resolved (newPacket ext (Invalid ext) []))) \<and>
         listeners s' = listeners s \<and> timers s' = timers s \<and>
         trace s' = trace s @ [Dispatch (RawPacketSentEvent (toBytes ext p))]))"
proof -
  assume a: "s = run ext acts (init n)"
    and tk: "tasks s t = Some (SendPacketWaitResponse p m, ph)" and ow: "oneWay p"
  have w: "coherent s" using a coherent_reachable by simp
  have na: "ph \<noteq> Awaiting"
    using awaiting_call [OF w, of t "SendPacketWaitResponse p m"] tk ow by auto
  then have "\<not> awaiting s t" using tk by (simp add: awaiting_def)
  then have nl: "t \<notin> set (listeners s)" "timers s t = None"
    using w by (auto simp: coherent_def corr_inv_def)
  have wr: "ph = Writing \<longrightarrow>
      (let s' = step ext (WriteDone t True) s in
         tasks s' t = Some (SendPacketWaitResponse p m,
                            Done (Resolved (newPacket ext (Invalid ext) []))) \<and>
         listeners s' = listeners s \<and> timers s' = timers s \<and>
         trace s' = trace s @ [Dispatch (RawPacketSentEvent (toBytes ext p))])"
  proof
    assume ph: "ph = Writing"
    let ?s1 = "emit [Dispatch (RawPacketSentEvent (toBytes ext p))] s"
    have tk1: "tasks ?s1 t = Some (SendPacketWaitResponse p m, Writing)" using tk ph by simp
    have nw: "t \<notin> set (waiters ?s1)"
      using waiting_not_in_section [OF w tk] ph by simp
    have "tasks (settle t (Resolved (newPacket ext (Invalid ext) [])) ?s1) t =
            Some (SendPacketWaitResponse p m, Done (Resolved (newPacket ext (Invalid ext) [])))"
      using tk1 nw by (rule tasks_settle_self)
    then show "let s' = step ext (WriteDone t True) s in
         tasks s' t = Some (SendPacketWaitResponse p m,
                            Done (Resolved (newPacket ext (Invalid ext) []))) \<and>
         listeners s' = listeners s \<and> timers s' = timers s \<and>
         trace s' = trace s @ [Dispatch (RawPacketSentEvent (toBytes ext p))]"
      using tk ph ow by (simp add: write_done_def Let_def wire_bytes_def)
  qed
  show ?thesis using nl na wr by simp
qed

theorem one_way_returns_after_write_witness:
  "tasks writing_oneway 2 = Some (SendPacketWaitResponse oneway_packet None, Writing) \<and>
   oneWay oneway_packet \<and>
   tasks (step sample_ext (WriteDone 2 True) writing_oneway) 2 =
     Some (SendPacketWaitResponse oneway_packet None,
           Done (Resolved \<lparr>command = 0, payload = [], oneWay = False, validResponseIds = []\<rparr>)) \<and>
   listeners (step sample_ext (WriteDone 2 True) writing_oneway) = [] \<and>
   timers (step sample_ext (WriteDone 2 True) writing_oneway) 2 = None"
  using one_way_returns_after_write [OF writing_oneway_def, of 2 oneway_packet None Writing]
  by (simp add: writing_oneway_fields Let_def oneway_packet_def sample_ext_def)

text \<open>
  C5. When the write of a two-way request completes, its timer is set to fire
  timeoutMs later, 1000 when no timeout was given. The timer does nothing before that
  time. When it fires, the call is rejected with the Error whose message carries
  bufToHex of validResponseIds, its listener and timer are gone, and the mutex passes on:
  with a channel, the first waiter gets it and starts its sleep; without one every waiter
  is admitted in turn and rejected.
\<close>

theorem timeout_fails_and_releases:
  "s = run ext acts (init n) \<Longrightarrow>
   (tasks s t = Some (SendPacketWaitResponse p m, Writing) \<and> \<not> oneWay p \<longrightarrow>
      tasks (step ext (WriteDone t True) s) t = Some (SendPacketWaitResponse p m, Awaiting) \<and>
      timers (step ext (WriteDone t True) s) t =
        Some (now s + (case m of None \<Rightarrow> 1000 | Some ms \<Rightarrow> ms))) \<and>
   (tasks s t = Some (SendPacketWaitResponse p m, Awaiting) \<and> timers s t = Some deadline \<longrightarrow>
      (now s < deadline \<longrightarrow> step ext (TimerFired t) s = s) \<and>
      (deadline \<le> now s \<longrightarrow>
         (let s' = step ext (TimerFired t) s in
            tasks s' t =
              Some (SendPacketWaitResponse p m,
                    Done (Rejected (Error (''Timeout waiting response (waited for '' @
                                           bufToHex ext (validResponseIds p) '', '' @ '')'')))) \<and>
            t \<notin> set (listeners s') \<and> timers s' t = None \<and>
            holder s = Some t \<and> holder s' \<noteq> Some t \<and>
            (channel s \<noteq> None \<longrightarrow>
               (case waiters s of
                  [] \<Rightarrow> holder s' = None \<and> waiters s' = []
                | w # ws \<Rightarrow>
                    holder s' = Some w \<and> waiters s' = ws \<and>
                    (\<exists>c. tasks s w = Some (c, Queued) \<and>
                         tasks s' w = Some (c, Sleeping (now s + packetIntervalMs s))))) \<and>
            (channel s = None \<longrightarrow>
               holder s' = None \<and> waiters s' = [] \<and>
               (\<forall>w \<in> set (waiters s).
                  \<exists>c. tasks s' w = Some (c, Done (Rejected (Error ''Channel is closed''))))))))"
proof (intro conjI impI)
  assume "tasks s t = Some (SendPacketWaitResponse p m, Writing) \<and> \<not> oneWay p"
  then show "tasks (step ext (WriteDone t True) s) t = Some (SendPacketWaitResponse p m, Awaiting)"
    "timers (step ext (WriteDone t True) s) t =
        Some (now s + (case m of None \<Rightarrow> 1000 | Some ms \<Rightarrow> ms))"
    by (simp_all add: write_done_def Let_def set_phase_tasks)
next
  assume "tasks s t = Some (SendPacketWaitResponse p m, Awaiting) \<and> timers s t = Some deadline"
    and "now s < deadline"
  then show "step ext (TimerFired t) s = s"
    by (simp add: timer_fired_def)
next
  assume a: "s = run ext acts (init n)"
    and b: "tasks s t = Some (SendPacketWaitResponse p m, Awaiting) \<and> timers s t = Some deadline"
    and c: "deadline \<le> now s"
  have w: "coherent s" using a coherent_reachable by simp
  have tk: "tasks s t = Some (SendPacketWaitResponse p m, Awaiting)" using b by blast
  have tm: "timers s t = Some deadline" using b by blast
  note al = awaiting_alone [OF w tk]
  let ?s0 = "unregister t (s\<lparr>timers := (timers s)(t := None)\<rparr>)"
  let ?out = "Rejected (Error (timeout_message ext p))"
  let ?s' = "settle t ?out ?s0"
  have st: "step ext (TimerFired t) s = ?s'"
    using tk tm c by (simp add: timer_fired_def)
  have tk0: "tasks ?s0 t = Some (SendPacketWaitResponse p m, Awaiting)" using tk by simp
  have mi: "mutex_inv ?s0"
    using w by (simp add: coherent_def mutex_inv_cong [of ?s0 s])
  have um: "uses_mutex (SendPacketWaitResponse p m)" by (simp add: uses_mutex_def)
  have nw: "t \<notin> set (waiters s)" using waiting_not_in_section [OF w tk] by simp
  have t1: "tasks ?s' t = Some (SendPacketWaitResponse p m, Done ?out)"
    using tk0 nw by (intro tasks_settle_self) simp_all
  have g: "holder ?s' = (if channel s = None then None
                         else case waiters s of [] \<Rightarrow> None | w # ws \<Rightarrow> Some w)"
    "waiters ?s' = (if channel s = None then [] else tl (waiters s))"
    using settle_gate [OF tk0 um, of ?out] by simp_all
  have h: "holder ?s' \<noteq> Some t"
    using g(1) nw by (auto split: list.splits)
  have op: "channel s \<noteq> None \<longrightarrow>
               (case waiters s of
                  [] \<Rightarrow> holder ?s' = None \<and> waiters ?s' = []
                | w # ws \<Rightarrow>
                    holder ?s' = Some w \<and> waiters ?s' = ws \<and>
                    (\<exists>c. tasks s w = Some (c, Queued) \<and>
                         tasks ?s' w = Some (c, Sleeping (now s + packetIntervalMs s))))"
  proof
    assume ch: "channel s \<noteq> None"
    show "case waiters s of
                  [] \<Rightarrow> holder ?s' = None \<and> waiters ?s' = []
                | w # ws \<Rightarrow>
                    holder ?s' = Some w \<and> waiters ?s' = ws \<and>
                    (\<exists>c. tasks s w = Some (c, Queued) \<and>
                         tasks ?s' w = Some (c, Sleeping (now s + packetIntervalMs s)))"
    proof (cases "waiters s")
      case Nil
      then show ?thesis using g ch by simp
    next
      case (Cons v vs)
      have "\<exists>cw. tasks ?s0 v = Some (cw, Queued) \<and>
              tasks ?s' v = Some (cw, Sleeping (now ?s0 + packetIntervalMs ?s0))"
        using mi tk0 um by (rule settle_admits_head) (use Cons ch in simp_all)
      then show ?thesis using Cons g ch by simp
    qed
  qed
  have cl: "channel s = None \<longrightarrow>
               holder ?s' = None \<and> waiters ?s' = [] \<and>
               (\<forall>w \<in> set (waiters s).
                  \<exists>c. tasks ?s' w = Some (c, Done (Rejected (Error ''Channel is closed''))))"
  proof (intro impI conjI ballI)
    assume ch: "channel s = None"
    show "holder ?s' = None" "waiters ?s' = []" using g ch by simp_all
    fix v assume "v \<in> set (waiters s)"
    then have "\<exists>cw. tasks ?s0 v = Some (cw, Queued) \<and>
              tasks ?s' v = Some (cw, Done (Rejected (Error ''Channel is closed'')))"
      using ch by (intro settle_rejects_all [OF mi tk0 um]) simp_all
    then show "\<exists>c. tasks ?s' v = Some (c, Done (Rejected (Error ''Channel is closed'')))"
      by blast
  qed
  show "let s' = step ext (TimerFired t) s in
            tasks s' t =
              Some (SendPacketWaitResponse p m,
                    Done (Rejected (Error (''Timeout waiting response (waited for '' @
                                           bufToHex ext (validResponseIds p) '', '' @ '')'')))) \<and>
            t \<notin> set (listeners s') \<and> timers s' t = None \<and>
            holder s = Some t \<and> holder s' \<noteq> Some t \<and>
            (channel s \<noteq> None \<longrightarrow>
               (case waiters s of
                  [] \<Rightarrow> holder s' = None \<and> waiters s' = []
                | w # ws \<Rightarrow>
                    holder s' = Some w \<and> waiters s' = ws \<and>
                    (\<exists>c. tasks s w = Some (c, Queued) \<and>
                         tasks s' w = Some (c, Sleeping (now s + packetIntervalMs s))))) \<and>
            (channel s = None \<longrightarrow>
               holder s' = None \<and> waiters s' = [] \<and>
               (\<forall>w \<in> set (waiters s).
                  \<exists>c. tasks s' w = Some (c, Done (Rejected (Error ''Channel is closed'')))))"
    unfolding st Let_def
    using t1 h op cl al by (simp add: timeout_message_def)
qed

theorem timeout_fails_and_releases_witness:
  "tasks writing 2 = Some (SendPacketWaitResponse sample_packet None, Writing) \<and>
   \<not> oneWay sample_packet \<and> now writing = 10 \<and>
   timers (step sample_ext (WriteDone 2 True) writing) 2 = Some 1010 \<and>
   tasks overdue 2 = Some (SendPacketWaitResponse sample_packet None, Awaiting) \<and>
   timers overdue 2 = Some 1010 \<and> now overdue = 1010 \<and> waiters overdue = [3] \<and>
   channel overdue \<noteq> None \<and>
   tasks (step sample_ext (TimerFired 2) overdue) 2 =
     Some (SendPacketWaitResponse sample_packet None,
           Done (Rejected (Error ''Timeout waiting response (waited for ids)''))) \<and>
   holder (step sample_ext (TimerFired 2) overdue) = Some 3 \<and>
   tasks (step sample_ext (TimerFired 2) overdue) 3 = Some (SendRaw [9] False, Sleeping 1020)"
proof -
  note a = timeout_fails_and_releases [OF writing_def, of 2 sample_packet None 0]
  note b = timeout_fails_and_releases [OF overdue_def, of 2 sample_packet None 1010]
  have ow: "\<not> oneWay sample_packet" by (simp add: sample_packet_def)
  have c1: "timers (step sample_ext (WriteDone 2 True) writing) 2 =
              Some (now writing + (case None of None \<Rightarrow> 1000 | Some ms \<Rightarrow> ms))"
    using a writing_fields(1) ow by blast
  have le: "(1010::nat) \<le> now overdue" by (simp add: overdue_fields)
  have c2: "let s' = step sample_ext (TimerFired 2) overdue in
            tasks s' 2 =
              Some (SendPacketWaitResponse sample_packet None,
                    Done (Rejected (Error (''Timeout waiting response (waited for '' @
                                           bufToHex sample_ext (validResponseIds sample_packet) '', '' @ '')'')))) \<and>
            2 \<notin> set (listeners s') \<and> timers s' 2 = None \<and>
            holder overdue = Some 2 \<and> holder s' \<noteq> Some 2 \<and>
            (channel overdue \<noteq> None \<longrightarrow>
               (case waiters overdue of
                  [] \<Rightarrow> holder s' = None \<and> waiters s' = []
                | w # ws \<Rightarrow>
                    holder s' = Some w \<and> waiters s' = ws \<and>
                    (\<exists>c. tasks overdue w = Some (c, Queued) \<and>
                         tasks s' w = Some (c, Sleeping (now overdue + packetIntervalMs overdue))))) \<and>
            (channel overdue = None \<longrightarrow>
               holder s' = None \<and> waiters s' = [] \<and>
               (\<forall>w \<in> set (waiters overdue).
                  \<exists>c. tasks s' w = Some (c, Done (Rejected (Error ''Channel is closed'')))))"
    using b overdue_fields(1,3) le by blast
  show ?thesis using c1 c2 ow
    by (simp add: writing_fields overdue_fields Let_def sample_ext_def)
qed

lemma gate_ok_cong:
  "holder s0 = holder s \<Longrightarrow> waiters s0 = waiters s \<Longrightarrow> channel s0 = channel s \<Longrightarrow>
   gate_ok s0 s' = gate_ok s s'"
  by (simp add: gate_ok_def gate_step_def released_by_settling_def
        cong: list.case_cong option.case_cong)

lemma gate_ok_same:
  "holder s' = holder s \<Longrightarrow> waiters s' = waiters s \<Longrightarrow> gate_ok s s'"
  by (simp add: gate_ok_def gate_step_def released_by_settling_def split: option.splits)

lemma gate_ok_settle:
  assumes "mutex_inv s" and "tasks s t = Some (c, ph)" and "uses_mutex c \<longrightarrow> in_section ph"
  shows "gate_ok s (settle t out s)"
proof (cases "uses_mutex c")
  case False
  then show ?thesis using settle_gate_unused [OF assms(2)] by (simp add: gate_ok_same)
next
  case True
  have ic: "in_critical s t" using assms(2,3) True by (simp add: in_critical_def)
  then have h: "holder s = Some t" using assms(1) by (simp add: mutex_inv_def)
  have "\<not> queued s t" using assms(2,3) True by (auto simp: queued_def)
  then have nw: "t \<notin> set (waiters s)" using assms(1) by (auto simp: mutex_inv_def)
  have tk: "tasks (settle t out s) t = Some (c, Done out)"
    using assms(2) nw by (rule tasks_settle_self)
  note g = settle_gate [OF assms(2) True, of out]
  have "gate_step s (settle t out s)"
    using g h by (cases "waiters s") (auto simp: gate_step_def)
  moreover have "released_by_settling s (settle t out s)"
    using h tk by (simp add: released_by_settling_def)
  ultimately show ?thesis by (simp add: gate_ok_def)
qed

lemma gate_ok_sleep_done: "coherent s \<Longrightarrow> gate_ok s (sleep_done ext t s)"
proof (cases "tasks s t")
  case None
  then show ?thesis by (simp add: sleep_done_def gate_ok_same)
next
  case (Some cp)
  assume w: "coherent s"
  obtain c ph where cp: "cp = (c, ph)" by (cases cp)
  show ?thesis
  proof (cases ph)
    case (Sleeping wake)
    have tk: "tasks s t = Some (c, Sleeping wake)" using Some cp Sleeping by simp
    have "gate_ok s (settle t (Rejected TypeError) s)"
      using w by (intro gate_ok_settle [OF _ tk]) (simp_all add: coherent_def)
    then show ?thesis using tk
      by (simp add: sleep_done_def gate_ok_same split: option.splits)
  qed (use Some cp in \<open>simp_all add: sleep_done_def gate_ok_same\<close>)
qed

lemma gate_ok_write_done: "coherent s \<Longrightarrow> gate_ok s (write_done ext t ok s)"
proof (cases "tasks s t")
  case None
  then show ?thesis by (simp add: write_done_def gate_ok_same)
next
  case (Some cp)
  assume w: "coherent s"
  obtain c ph where cp: "cp = (c, ph)" by (cases cp)
  show ?thesis
  proof (cases ph)
    case Writing
    have tk: "tasks s t = Some (c, Writing)" using Some cp Writing by simp
    let ?s1 = "emit [Dispatch (RawPacketSentEvent (wire_bytes ext c))] s"
    have a: "gate_ok s (settle t out s)" for out
      using w by (intro gate_ok_settle [OF _ tk]) (simp_all add: coherent_def)
    have "gate_ok ?s1 (settle t out ?s1)" for out
      using w tk by (intro gate_ok_settle [where c = c and ph = Writing])
        (simp_all add: coherent_def mutex_inv_cong [of ?s1 s])
    then have b: "gate_ok s (settle t out ?s1)" for out
      by (simp add: gate_ok_cong [of s ?s1])
    show ?thesis using tk a b
      by (cases c) (simp_all add: write_done_def Let_def gate_ok_same)
  qed (use Some cp in \<open>simp_all add: write_done_def gate_ok_same\<close>)
qed

lemma gate_ok_settle_awaiting:
  assumes "coherent s" and "tasks s t = Some (c, Awaiting)"
  shows "gate_ok s (settle t out (unregister t (s\<lparr>timers := (timers s)(t := None)\<rparr>)))"
proof -
  let ?s0 = "unregister t (s\<lparr>timers := (timers s)(t := None)\<rparr>)"
  have "gate_ok ?s0 (settle t out ?s0)"
    using assms by (intro gate_ok_settle [where c = c and ph = Awaiting])
      (simp_all add: coherent_def mutex_inv_cong [of ?s0 s])
  then show ?thesis by (simp add: gate_ok_cong [of s ?s0])
qed

lemma gate_ok_listener: "coherent s \<Longrightarrow> gate_ok s (listener t p s)"
proof (cases "tasks s t")
  case None
  then show ?thesis by (simp add: listener_def gate_ok_same)
next
  case (Some cp)
  assume w: "coherent s"
  obtain c ph where cp: "cp = (c, ph)" by (cases cp)
  show ?thesis
  proof (cases "ph = Awaiting")
    case True
    then have tk: "tasks s t = Some (c, Awaiting)" using Some cp by simp
    show ?thesis using tk gate_ok_settle_awaiting [OF w tk]
      by (cases c) (simp_all add: listener_def gate_ok_same)
  next
    case False
    then show ?thesis using Some cp
      by (cases c; cases ph) (simp_all add: listener_def gate_ok_same)
  qed
qed

lemma gate_ok_timer_fired: "coherent s \<Longrightarrow> gate_ok s (timer_fired ext t s)"
proof (cases "tasks s t")
  case None
  then show ?thesis by (simp add: timer_fired_def gate_ok_same)
next
  case (Some cp)
  assume w: "coherent s"
  obtain c ph where cp: "cp = (c, ph)" by (cases cp)
  show ?thesis
  proof (cases "ph = Awaiting")
    case True
    then have tk: "tasks s t = Some (c, Awaiting)" using Some cp by simp
    show ?thesis using tk gate_ok_settle_awaiting [OF w tk]
      by (cases c) (simp_all add: timer_fired_def gate_ok_same split: option.splits)
  next
    case False
    then show ?thesis using Some cp
      by (cases c; cases ph) (simp_all add: timer_fired_def gate_ok_same)
  qed
qed

text \<open>At most one listener is registered, so a notification runs at most one.\<close>

lemma listeners_at_most_one: "coherent s \<Longrightarrow> listeners s = [] \<or> (\<exists>t. listeners s = [t])"
proof (cases "listeners s")
  case (Cons t ts)
  assume w: "coherent s"
  have "t \<in> set (listeners s)" using Cons by simp
  then have "awaiting s t" using w unfolding coherent_def corr_inv_def by blast
  then obtain c where "tasks s t = Some (c, Awaiting)"
    by (cases "tasks s t") (auto simp: awaiting_def)
  then show ?thesis using awaiting_alone [OF w] by blast
qed simp

lemma gate_ok_characteristicvaluechanged:
  assumes w: "coherent s"
  shows "gate_ok s (characteristicvaluechanged ext bytes s)"
proof (cases "fromBytes ext bytes")
  case None
  then show ?thesis by (simp add: characteristicvaluechanged_def gate_ok_same)
next
  case (Some p)
  let ?s2 = "emit [Dispatch (PacketReceivedEvent p)] (emit [Dispatch (RawPacketReceivedEvent bytes)] s)"
  have w2: "coherent ?s2" using w by simp
  have g: "gate_ok s (foldl (\<lambda>s' t. listener t p s') ?s2 (listeners ?s2))"
  proof -
    consider "listeners s = []" | t where "listeners s = [t]"
      using listeners_at_most_one [OF w] by blast
    then show ?thesis
    proof cases
      case 1
      then show ?thesis by (simp add: gate_ok_same)
    next
      case 2
      have "gate_ok ?s2 (listener t p ?s2)" using w2 by (rule gate_ok_listener)
      then show ?thesis using 2 by (simp add: gate_ok_cong [of s ?s2])
    qed
  qed
  have e: "gate_ok s (emit es s') = gate_ok s s'" for es s'
    by (simp add: gate_ok_def gate_step_def released_by_settling_def
          cong: list.case_cong option.case_cong)
  show ?thesis using Some g
    by (simp add: characteristicvaluechanged_def Let_def e)
qed

lemma connect_link_gate:
  assumes "tasks s t = Some (Connect r, ph)"
  shows "holder (connect_link t req s) = holder s \<and> waiters (connect_link t req s) = waiters s"
proof -
  have st: "holder (settle t out s') = holder s' \<and> waiters (settle t out s') = waiters s'"
    if "tasks s' = tasks s" for out s'
    using settle_gate_unused [of s' t "Connect r" ph out] assms that
    by (simp add: uses_mutex_def)
  show ?thesis
    unfolding connect_link_def Let_def
    by (auto split: option.splits sum.splits simp: st)
qed

lemma gate_ok_invoke: "coherent s \<Longrightarrow> gate_ok s (invoke t c s)"
proof (cases "tasks s t")
  case (Some cp)
  then show ?thesis by (simp add: invoke_def gate_ok_same)
next
  case None
  assume w: "coherent s"
  let ?s1 = "s\<lparr>tasks := (tasks s)(t \<mapsto> (c, Queued))\<rparr>"
  have con: "gate_ok s (connect_link t req ?s1)" if "c = Connect req" for req
    using connect_link_gate [of ?s1 t req Queued req] that by (simp add: gate_ok_same)
  have free: "gate_ok s (set_phase t Admitted (?s1\<lparr>holder := Some t\<rparr>))" if "holder s = None"
  proof -
    have emp: "waiters s = []" using w that by (simp add: coherent_def mutex_inv_def)
    show ?thesis using that emp
      by (simp add: gate_ok_def gate_step_def released_by_settling_def)
  qed
  have busy: "gate_ok s (?s1\<lparr>waiters := waiters ?s1 @ [t]\<rparr>)" if "holder s \<noteq> None"
    using that by (auto simp: gate_ok_def gate_step_def released_by_settling_def)
  have forced: "gate_ok s (snd (send_begin t ?s1))"
    by (simp add: gate_ok_same)
  show ?thesis
    using None con free busy forced
    by (cases c) (auto simp: invoke_def Let_def uses_mutex_def)
qed

lemma gate_ok_callback_start: "coherent s \<Longrightarrow> gate_ok s (callback_start t s)"
proof (cases "tasks s t")
  case None
  then show ?thesis by (simp add: callback_start_def gate_ok_same)
next
  case (Some cp)
  assume w: "coherent s"
  obtain c ph where cp: "cp = (c, ph)" by (cases cp)
  show ?thesis
  proof (cases ph)
    case Admitted
    have tk: "tasks s t = Some (c, Admitted)" using Some cp Admitted by simp
    have "gate_ok s (settle t (Rejected (Error ''Channel is closed'')) s)"
      using w by (intro gate_ok_settle [OF _ tk]) (simp_all add: coherent_def)
    then show ?thesis by (simp add: callback_start_unfold [OF tk] gate_ok_same)
  qed (use Some cp in \<open>simp_all add: callback_start_def gate_ok_same\<close>)
qed

lemma gate_ok_step: "coherent s \<Longrightarrow> gate_ok s (step ext a s)"
proof (cases a)
  case (NegotiationDone t threw)
  have "holder (connect_finish ext t threw s) = holder s \<and>
        waiters (connect_finish ext t threw s) = waiters s"
    by (simp add: connect_finish_def Let_def split: option.splits prod.splits phase.splits)
  then show ?thesis using NegotiationDone by (simp add: gate_ok_same)
next
  case (GattServerDisconnected dev)
  then show ?thesis by (simp add: gate_ok_same gattserverdisconnected_def)
qed (simp_all add: gate_ok_invoke gate_ok_callback_start gate_ok_sleep_done gate_ok_write_done
       gate_ok_characteristicvaluechanged gate_ok_timer_fired gate_ok_same)

text \<open>
  C2. In every state of every run, at most one sendPacketWaitResponse or non-forced sendRaw
  call is between the start of its send and its settling (sleep, write, wait for the
  response), and that call is the holder of the mutex; a call that waits for its response
  still holds it. Waiters are queued calls, none of them inside. One action moves the gate
  in one of four ways: not at all, a caller joins the tail of the queue, a caller takes the
  free mutex, or the holder settles and the head of the queue takes over (with the channel
  unset every waiter is admitted in turn and rejected). The mutex leaves its holder only
  when that call has settled.
\<close>

theorem mutual_exclusion:
  "s = run ext acts (init n) \<Longrightarrow>
   uses_mutex (SendPacketWaitResponse p m) \<and> uses_mutex (SendRaw d False) \<and>
   \<not> uses_mutex (SendRaw d True) \<and>
   (\<forall>t u. in_critical s t \<and> in_critical s u \<longrightarrow> t = u) \<and>
   (\<forall>t. in_critical s t \<longleftrightarrow> holder s = Some t) \<and>
   (\<forall>t c. tasks s t = Some (c, Awaiting) \<longrightarrow> holder s = Some t) \<and>
   (\<forall>w \<in> set (waiters s). queued s w \<and> \<not> in_critical s w \<and> holder s \<noteq> None) \<and>
   distinct (waiters s) \<and>
   gate_step s (step ext a s) \<and> released_by_settling s (step ext a s)"
proof -
  assume a: "s = run ext acts (init n)"
  have w: "coherent s" using a coherent_reachable by simp
  then have mi: "mutex_inv s" by (simp add: coherent_def)
  have ex: "\<forall>t u. in_critical s t \<and> in_critical s u \<longrightarrow> t = u"
    using mi by (auto simp: mutex_inv_def)
  have ho: "\<forall>t. in_critical s t \<longleftrightarrow> holder s = Some t"
    using mi by (simp add: mutex_inv_def)
  have aw: "\<forall>t c. tasks s t = Some (c, Awaiting) \<longrightarrow> holder s = Some t"
    using awaiting_alone [OF w] by blast
  have qu: "\<forall>v \<in> set (waiters s). queued s v \<and> \<not> in_critical s v \<and> holder s \<noteq> None"
  proof
    fix v assume v: "v \<in> set (waiters s)"
    then have q: "queued s v" using mi by (simp add: mutex_inv_def)
    then have "\<not> in_critical s v"
      by (cases "tasks s v") (auto simp: queued_def in_critical_def)
    moreover have "holder s \<noteq> None" using mi v by (auto simp: mutex_inv_def)
    ultimately show "queued s v \<and> \<not> in_critical s v \<and> holder s \<noteq> None" using q by simp
  qed
  have di: "distinct (waiters s)" using mi by (simp add: mutex_inv_def)
  have g: "gate_step s (step ext a s) \<and> released_by_settling s (step ext a s)"
    using gate_ok_step [OF w] by (simp add: gate_ok_def)
  show ?thesis using ex ho aw qu di g by (simp add: uses_mutex_def)
qed

theorem mutual_exclusion_witness:
  "in_critical overdue 2 \<and> holder overdue = Some 2 \<and>
   tasks overdue 2 = Some (SendPacketWaitResponse sample_packet None, Awaiting) \<and>
   3 \<in> set (waiters overdue) \<and> queued overdue 3 \<and> \<not> in_critical overdue 3 \<and>
   gate_step overdue (step sample_ext (TimerFired 2) overdue) \<and>
   released_by_settling overdue (step sample_ext (TimerFired 2) overdue)"
  using mutual_exclusion [OF overdue_def, of sample_packet None "[]" "TimerFired 2"]
  by (simp add: overdue_fields in_critical_def uses_mutex_def)

text \<open>While a call waits for its response, no other call is inside the mutex.\<close>

lemma only_holder:
  assumes "coherent s" and "tasks s t = Some (c, Awaiting)"
    and "tasks s u = Some (cu, ph)" and "uses_mutex cu" and "in_section ph"
  shows "u = t"
proof -
  have "in_critical s u" using assms(3,4,5) by (simp add: in_critical_def)
  then have "holder s = Some u" using assms(1) by (simp add: coherent_def mutex_inv_def)
  then show ?thesis using awaiting_alone [OF assms(1,2)] by simp
qed

lemma settle_other:
  assumes "tasks s u = Some (cu, ph)" and "\<not> uses_mutex cu" and "u \<noteq> t"
  shows "tasks (settle u out s) t = tasks s t \<and> holder (settle u out s) = holder s"
  using assms tasks_settle_unqueued [OF assms(1,2), of out] settle_gate_unused [OF assms(1,2), of out]
  by simp

lemma connect_link_other:
  assumes "tasks s u = Some (Connect r, ph)" and "u \<noteq> t"
  shows "tasks (connect_link u req s) t = tasks s t \<and>
         listeners (connect_link u req s) = listeners s \<and>
         timers (connect_link u req s) = timers s"
proof -
  have st: "tasks (settle u out s') t = tasks s t"
    if "tasks s' = tasks s" for out s'
    using settle_other [of s' u "Connect r" ph t out] assms that by (simp add: uses_mutex_def)
  have sp: "tasks (set_phase u ph' s') t = tasks s t" if "tasks s' = tasks s" for ph' s'
    using assms(2) that by (simp add: set_phase_tasks)
  show ?thesis
    unfolding connect_link_def Let_def
    by (auto split: option.splits sum.splits simp: st sp)
qed

lemma pending_frame:
  assumes w: "coherent s" and tk: "tasks s t = Some (SendPacketWaitResponse pk m, Awaiting)"
    and e: "ending ext pk t s a = None"
  shows "tasks (step ext a s) t = tasks s t \<and> listeners (step ext a s) = listeners s \<and>
         timers (step ext a s) = timers s \<and> holder (step ext a s) = holder s"
proof -
  note al = awaiting_alone [OF w tk]
  have other: "u = t" if "tasks s u = Some (cu, ph)" "uses_mutex cu" "in_section ph" for u cu ph
    using only_holder [OF w tk that] .
  show ?thesis
  proof (cases a)
    case (Call u c)
    show ?thesis
    proof (cases "tasks s u")
      case (Some cp)
      then show ?thesis using Call by (simp add: invoke_def)
    next
      case None
      then have ne: "u \<noteq> t" using tk by auto
      let ?s1 = "s\<lparr>tasks := (tasks s)(u \<mapsto> (c, Queued))\<rparr>"
      have t1: "tasks ?s1 t = tasks s t" using ne by simp
      show ?thesis
      proof (cases c)
        case (Connect req)
        have "tasks ?s1 u = Some (Connect req, Queued)" using Connect by simp
        then show ?thesis
          using connect_link_other [of ?s1 u req Queued t req] connect_link_gate [of ?s1 u req Queued req]
            ne None Call Connect t1
          by (simp add: invoke_def Let_def)
      next
        case (SendPacketWaitResponse p' m')
        then show ?thesis using None Call al ne
          by (simp add: invoke_def Let_def uses_mutex_def)
      next
        case (SendRaw d f)
        then show ?thesis using None Call al ne
          by (cases f) (simp_all add: invoke_def Let_def uses_mutex_def send_begin_def set_phase_tasks)
      qed
    qed
  next
    case (CallbackStart u)
    show ?thesis
    proof (cases "tasks s u")
      case None
      then show ?thesis using CallbackStart by (simp add: callback_start_def)
    next
      case (Some cp)
      obtain cu ph where cp: "cp = (cu, ph)" by (cases cp)
      show ?thesis
      proof (cases ph)
        case Admitted
        have tu: "tasks s u = Some (cu, Admitted)" using Some cp Admitted by simp
        have ne: "u \<noteq> t" using tu tk by auto
        have nm: "\<not> uses_mutex cu" using other [OF tu] ne by auto
        show ?thesis using CallbackStart tu ne nm
          by (simp add: callback_start_def send_begin_def set_phase_tasks)
      qed (use Some cp CallbackStart in \<open>simp_all add: callback_start_def\<close>)
    qed
  next
    case (Advance ms)
    then show ?thesis by simp
  next
    case (SleepDone u)
    show ?thesis
    proof (cases "tasks s u")
      case None
      then show ?thesis using SleepDone by (simp add: sleep_done_def)
    next
      case (Some cp)
      obtain cu ph where cp: "cp = (cu, ph)" by (cases cp)
      show ?thesis
      proof (cases ph)
        case (Sleeping wake)
        have tu: "tasks s u = Some (cu, Sleeping wake)" using Some cp Sleeping by simp
        have ne: "u \<noteq> t" using tu tk by auto
        have nm: "\<not> uses_mutex cu" using other [OF tu] ne by auto
        show ?thesis using SleepDone tu ne settle_other [OF tu nm ne]
          by (simp add: sleep_done_def set_phase_tasks split: option.splits)
      qed (use Some cp SleepDone in \<open>simp_all add: sleep_done_def\<close>)
    qed
  next
    case (WriteDone u ok)
    show ?thesis
    proof (cases "tasks s u")
      case None
      then show ?thesis using WriteDone by (simp add: write_done_def)
    next
      case (Some cp)
      obtain cu ph where cp: "cp = (cu, ph)" by (cases cp)
      show ?thesis
      proof (cases ph)
        case Writing
        have tu: "tasks s u = Some (cu, Writing)" using Some cp Writing by simp
        have ne: "u \<noteq> t" using tu tk by auto
        have nm: "\<not> uses_mutex cu" using other [OF tu] ne by auto
        let ?s1 = "emit [Dispatch (RawPacketSentEvent (wire_bytes ext cu))] s"
        have tu1: "tasks ?s1 u = Some (cu, Writing)" using tu by simp
        show ?thesis using WriteDone tu ne nm settle_other [OF tu nm ne] settle_other [OF tu1 nm ne]
          by (cases cu) (simp_all add: write_done_def Let_def uses_mutex_def)
      qed (use Some cp WriteDone in \<open>simp_all add: write_done_def\<close>)
    qed
  next
    case (Notification bytes)
    show ?thesis
    proof (cases "fromBytes ext bytes")
      case None
      then show ?thesis using Notification by (simp add: characteristicvaluechanged_def)
    next
      case (Some r)
      then have "\<not> matches pk r" using e Notification by (simp add: ending_def split: if_splits)
      then show ?thesis using notification_resolves [OF w tk Some] Notification by simp
    qed
  next
    case (TimerFired u)
    show ?thesis
    proof (cases "u = t")
      case True
      obtain dl where dl: "timers s t = Some dl" using al by auto
      then have "now s < dl" using e TimerFired True by (simp add: ending_def split: if_splits)
      then show ?thesis using TimerFired True tk dl by (simp add: timer_fired_def)
    next
      case False
      have "tasks s u \<noteq> Some (c', Awaiting)" for c'
        using awaiting_alone [OF w, of u c'] al False by auto
      then show ?thesis using TimerFired
        by (simp add: timer_fired_def split: option.splits prod.splits call.splits phase.splits)
    qed
  next
    case Disconnect
    then show ?thesis by simp
  next
    case (GattServerDisconnected dev)
    then show ?thesis by (simp add: gattserverdisconnected_def)
  next
    case (SetInfo k v)
    then show ?thesis by simp
  next
    case (NegotiationDone u threw)
    show ?thesis
    proof (cases "tasks s u")
      case None
      then show ?thesis using NegotiationDone by (simp add: connect_finish_def)
    next
      case (Some cp)
      obtain cu ph where cp: "cp = (cu, ph)" by (cases cp)
      show ?thesis
      proof (cases ph)
        case (Negotiating device)
        then have "u \<noteq> t" using Some cp tk by auto
        then show ?thesis using NegotiationDone Some cp Negotiating
          by (simp add: connect_finish_def Let_def set_phase_tasks)
      qed (use Some cp NegotiationDone in \<open>simp_all add: connect_finish_def\<close>)
    qed
  qed
qed

lemma pending_ends:
  assumes w: "coherent s" and tk: "tasks s t = Some (SendPacketWaitResponse pk m, Awaiting)"
    and e: "ending ext pk t s a = Some out"
  shows "tasks (step ext a s) t = Some (SendPacketWaitResponse pk m, Done out)"
proof (cases a)
  case (Notification bytes)
  then obtain r where r: "fromBytes ext bytes = Some r" "matches pk r" "out = Resolved r"
    using e by (auto simp: ending_def split: option.splits if_splits)
  then show ?thesis using notification_resolves [OF w tk r(1)] Notification by simp
next
  case (TimerFired u)
  then obtain dl where u: "u = t" "timers s t = Some dl" "dl \<le> now s"
    "out = Rejected (Error (timeout_message ext pk))"
    using e by (auto simp: ending_def split: option.splits if_splits)
  let ?s0 = "unregister t (s\<lparr>timers := (timers s)(t := None)\<rparr>)"
  have tk0: "tasks ?s0 t = Some (SendPacketWaitResponse pk m, Awaiting)" using tk by simp
  have nw: "t \<notin> set (waiters ?s0)" using waiting_not_in_section [OF w tk] by simp
  have "tasks (settle t out ?s0) t = Some (SendPacketWaitResponse pk m, Done out)"
    using tk0 nw by (rule tasks_settle_self)
  then show ?thesis using TimerFired u tk by (simp add: timer_fired_def)
qed (use e in \<open>simp_all add: ending_def\<close>)

lemma cut_off_fields:
  "tasks cut_off 2 = Some (SendPacketWaitResponse sample_packet None, Awaiting)"
  "timers cut_off 2 = Some 1010"
  "now cut_off = 1010"
  "channel cut_off = None"
proof -
  have eq: "cut_off = run sample_ext [Disconnect, Advance 1000] pending"
    by (simp add: cut_off_def cut_off_acts_def pending_reachable run_def)
  show "tasks cut_off 2 = Some (SendPacketWaitResponse sample_packet None, Awaiting)"
    "timers cut_off 2 = Some 1010" "now cut_off = 1010" "channel cut_off = None"
    unfolding eq by (simp_all add: run_def pending_fields)
qed

text \<open>
  C1, as the code has it. disconnect() and the listener of gattserverdisconnected clear
  gattServer, channel and info, so isConnected() is false afterwards. Neither touches a
  pending request: the call stays in its promise, its listener and its timer stay
  registered and it keeps the mutex. In every run, one action ends a pending request only
  if it is an inbound packet that matches (the request resolves with it) or the request's
  timer at or after its deadline (the request is rejected with the timeout error); every
  other action leaves the request, the listeners, the timers and the holder as they were.
\<close>

theorem disconnect_clears_session_keeps_pending:
  "(let s' = step ext Disconnect s in
      gattServer s' = None \<and> channel s' = None \<and> info s' = Map.empty \<and> \<not> isConnected s' \<and>
      tasks s' = tasks s \<and> listeners s' = listeners s \<and> timers s' = timers s \<and>
      holder s' = holder s \<and> waiters s' = waiters s \<and> now s' = now s) \<and>
   (let s' = step ext (GattServerDisconnected dev) s in
      (dev \<in> set (deviceListeners s) \<longrightarrow>
         gattServer s' = None \<and> channel s' = None \<and> info s' = Map.empty \<and> \<not> isConnected s') \<and>
      tasks s' = tasks s \<and> listeners s' = listeners s \<and> timers s' = timers s \<and>
      holder s' = holder s \<and> waiters s' = waiters s \<and> now s' = now s) \<and>
   (s = run ext acts (init n) \<and> tasks s t = Some (SendPacketWaitResponse pk m, Awaiting) \<longrightarrow>
      (let s' = step ext a s in
         case ending ext pk t s a of
           None \<Rightarrow>
             tasks s' t = tasks s t \<and> listeners s' = listeners s \<and> timers s' = timers s \<and>
             holder s' = holder s
         | Some out \<Rightarrow> tasks s' t = Some (SendPacketWaitResponse pk m, Done out)))"
proof (intro conjI impI)
  show "let s' = step ext Disconnect s in
      gattServer s' = None \<and> channel s' = None \<and> info s' = Map.empty \<and> \<not> isConnected s' \<and>
      tasks s' = tasks s \<and> listeners s' = listeners s \<and> timers s' = timers s \<and>
      holder s' = holder s \<and> waiters s' = waiters s \<and> now s' = now s"
    by (simp add: Let_def isConnected_def)
  show "let s' = step ext (GattServerDisconnected dev) s in
      (dev \<in> set (deviceListeners s) \<longrightarrow>
         gattServer s' = None \<and> channel s' = None \<and> info s' = Map.empty \<and> \<not> isConnected s') \<and>
      tasks s' = tasks s \<and> listeners s' = listeners s \<and> timers s' = timers s \<and>
      holder s' = holder s \<and> waiters s' = waiters s \<and> now s' = now s"
    using gattserverdisconnected_registered [of dev s]
    by (simp add: Let_def isConnected_def gattserverdisconnected_def)
  assume a: "s = run ext acts (init n) \<and> tasks s t = Some (SendPacketWaitResponse pk m, Awaiting)"
  have w: "coherent s" using a coherent_reachable by simp
  have tk: "tasks s t = Some (SendPacketWaitResponse pk m, Awaiting)" using a by blast
  show "let s' = step ext a s in
         case ending ext pk t s a of
           None \<Rightarrow>
             tasks s' t = tasks s t \<and> listeners s' = listeners s \<and> timers s' = timers s \<and>
             holder s' = holder s
         | Some out \<Rightarrow> tasks s' t = Some (SendPacketWaitResponse pk m, Done out)"
    using pending_frame [OF w tk, of ext a] pending_ends [OF w tk, of ext a]
    by (cases "ending ext pk t s a") (simp_all add: Let_def)
qed

theorem disconnect_clears_session_keeps_pending_witness:
  "7 \<in> set (deviceListeners pending) \<and> isConnected pending \<and>
   \<not> isConnected (step sample_ext (GattServerDisconnected 7) pending) \<and>
   \<not> isConnected (step sample_ext Disconnect pending) \<and>
   tasks (step sample_ext (GattServerDisconnected 7) pending) 2 =
     Some (SendPacketWaitResponse sample_packet None, Awaiting) \<and>
   tasks pending 2 = Some (SendPacketWaitResponse sample_packet None, Awaiting) \<and>
   ending sample_ext sample_packet 2 pending Disconnect = None \<and>
   tasks (step sample_ext Disconnect pending) 2 =
     Some (SendPacketWaitResponse sample_packet None, Awaiting) \<and>
   tasks cut_off 2 = Some (SendPacketWaitResponse sample_packet None, Awaiting) \<and>
   channel cut_off = None \<and>
   ending sample_ext sample_packet 2 cut_off (TimerFired 2) =
     Some (Rejected (Error ''Timeout waiting response (waited for ids)'')) \<and>
   tasks (step sample_ext (TimerFired 2) cut_off) 2 =
     Some (SendPacketWaitResponse sample_packet None,
           Done (Rejected (Error ''Timeout waiting response (waited for ids)'')))"
proof -
  note a = disconnect_clears_session_keeps_pending
             [of sample_ext pending 7 pending_acts 10 2 sample_packet None Disconnect]
  note b = disconnect_clears_session_keeps_pending
             [of sample_ext cut_off 7 cut_off_acts 10 2 sample_packet None "TimerFired 2"]
  have e1: "ending sample_ext sample_packet 2 pending Disconnect = None"
    by (simp add: ending_def)
  have e2: "ending sample_ext sample_packet 2 cut_off (TimerFired 2) =
     Some (Rejected (Error ''Timeout waiting response (waited for ids)''))"
    by (simp add: ending_def cut_off_fields timeout_message_def sample_ext_def)
  have c1: "tasks (step sample_ext Disconnect pending) 2 = tasks pending 2"
    using a [unfolded Let_def] pending_reachable pending_fields(6) e1 by simp
  have c2: "tasks (step sample_ext (TimerFired 2) cut_off) 2 =
     Some (SendPacketWaitResponse sample_packet None,
           Done (Rejected (Error ''Timeout waiting response (waited for ids)'')))"
    using b [unfolded Let_def] cut_off_def cut_off_fields(1) e2 by simp
  have c3: "\<not> isConnected (step sample_ext (GattServerDisconnected 7) pending) \<and>
     \<not> isConnected (step sample_ext Disconnect pending) \<and>
     tasks (step sample_ext (GattServerDisconnected 7) pending) = tasks pending"
    using a [unfolded Let_def] by (simp add: pending_fields)
  show ?thesis
    using c1 c2 c3 e1 e2 by (simp add: pending_fields cut_off_fields isConnected_def)
qed

text \<open>
  C1, as stated, fails: a request is pending with its deadline at 1010 and the clock at 10;
  after disconnect(), and after the transport's disconnect event, it is still pending and
  has not failed.
\<close>

theorem disconnect_fails_pending_counterexample:
  "tasks pending 2 = Some (SendPacketWaitResponse sample_packet None, Awaiting) \<and>
   timers pending 2 = Some 1010 \<and> now pending = 10 \<and>
   tasks (step sample_ext Disconnect pending) 2 =
     Some (SendPacketWaitResponse sample_packet None, Awaiting) \<and>
   tasks (step sample_ext (GattServerDisconnected 7) pending) 2 =
     Some (SendPacketWaitResponse sample_packet None, Awaiting)"
  by (simp add: pending_fields gattserverdisconnected_def)

lemma forced_alone_call:
  assumes "tasks s t = None" and "holder s = None" and "waiters s = []"
  shows "forced_alone t d (step ext (Call t (SendRaw d True)) s) \<and>
         step ext (CallbackStart t) (step ext (Call t (SendRaw d False)) s) =
           as_unforced t (step ext (Call t (SendRaw d True)) s)"
  using assms
  by (cases "channel s")
     (simp_all add: forced_alone_def invoke_def callback_start_def Let_def uses_mutex_def
        send_begin_def set_phase_def acquire_next.simps as_unforced_def)

lemma forced_alone_step:
  assumes fa: "forced_alone t d s" and ow: "own t a"
  shows "forced_alone t d (step ext a s) \<and>
         step ext a (as_unforced t s) = as_unforced t (step ext a s)"
proof -
  obtain ph where tk: "tasks s t = Some (SendRaw d True, ph)" and nq: "ph \<noteq> Queued"
    and h: "holder s = None" and ws: "waiters s = []"
    using fa by (cases "tasks s t") (auto simp: forced_alone_def)
  have au: "as_unforced t s =
      s\<lparr>tasks := (tasks s)(t \<mapsto> (SendRaw d False, ph)),
        holder := (if in_section ph then Some t else None)\<rparr>"
    using tk by (simp add: as_unforced_def)
  show ?thesis
  proof (cases a)
    case (Advance ms)
    then show ?thesis using tk nq h ws
      by (simp add: forced_alone_def as_unforced_def)
  next
    case (SetInfo k v)
    then show ?thesis using tk nq h ws
      by (simp add: forced_alone_def as_unforced_def)
  next
    case Disconnect
    have "tasks (disconnect s) t = Some (SendRaw d True, ph)" using tk by simp
    then have "as_unforced t (disconnect s) =
        (disconnect s)\<lparr>tasks := (tasks s)(t \<mapsto> (SendRaw d False, ph)),
          holder := (if in_section ph then Some t else None)\<rparr>"
      by (simp add: as_unforced_def)
    moreover have "disconnect (as_unforced t s) =
        (disconnect s)\<lparr>tasks := (tasks s)(t \<mapsto> (SendRaw d False, ph)),
          holder := (if in_section ph then Some t else None)\<rparr>"
      unfolding au by (cases "gattServer s") (simp_all add: disconnect_def Let_def emit_def)
    ultimately show ?thesis using Disconnect tk nq h ws
      by (simp add: forced_alone_def)
  next
    case (GattServerDisconnected dev)
    have "forced_alone t d (foldl (\<lambda>s' x. disconnectListener x s') s' ds) \<and>
          foldl (\<lambda>s' x. disconnectListener x s') (as_unforced t s') ds =
            as_unforced t (foldl (\<lambda>s' x. disconnectListener x s') s' ds)"
      if "forced_alone t d s'" for s' ds
      using that
    proof (induction ds arbitrary: s')
      case Nil
      then show ?case by simp
    next
      case (Cons x xs)
      have "forced_alone t d (disconnectListener x s')"
        using Cons.prems by (simp add: forced_alone_def)
      moreover have "disconnectListener x (as_unforced t s') = as_unforced t (disconnectListener x s')"
        by (simp add: as_unforced_def disconnectListener_def emit_def
              split: option.splits prod.splits call.splits)
      ultimately show ?case using Cons.IH by simp
    qed
    moreover have "deviceListeners (as_unforced t s) = deviceListeners s"
      by (simp add: au)
    ultimately show ?thesis using GattServerDisconnected fa
      by (simp add: gattserverdisconnected_def)
  next
    case (SleepDone u)
    then have u: "u = t" using ow by (simp add: own_def)
    show ?thesis
    proof (cases ph)
      case (Sleeping wake)
      then show ?thesis using tk h ws SleepDone u
        by (cases "channel s")
           (simp_all add: forced_alone_def au sleep_done_def settle_def Let_def uses_mutex_def
              acquire_next.simps set_phase_def emit_def as_unforced_def wire_bytes_def)
    qed (use tk nq h ws SleepDone u in
          \<open>simp_all add: forced_alone_def au sleep_done_def as_unforced_def\<close>)
  next
    case (WriteDone u ok)
    then have u: "u = t" using ow by (simp add: own_def)
    show ?thesis
    proof (cases ph)
      case Writing
      then show ?thesis using tk h ws WriteDone u
        by (cases ok)
           (simp_all add: forced_alone_def au write_done_def settle_def Let_def uses_mutex_def
              acquire_next.simps emit_def as_unforced_def wire_bytes_def)
    qed (use tk nq h ws WriteDone u in
          \<open>simp_all add: forced_alone_def au write_done_def as_unforced_def\<close>)
  qed (use ow in \<open>simp_all add: own_def\<close>)
qed

lemma forced_alone_run:
  "forced_alone t d s \<Longrightarrow> \<forall>a \<in> set acts. own t a \<Longrightarrow>
   forced_alone t d (run ext acts s) \<and>
   run ext acts (as_unforced t s) = as_unforced t (run ext acts s)"
proof (induction acts rule: rev_induct)
  case Nil
  then show ?case by (simp add: run_def)
next
  case (snoc a acts)
  then have ih: "forced_alone t d (run ext acts s)"
    "run ext acts (as_unforced t s) = as_unforced t (run ext acts s)" by simp_all
  have "own t a" using snoc.prems by simp
  then show ?case using forced_alone_step [OF ih(1), of a ext] ih(2)
    by (simp add: run_snoc)
qed

lemma as_unforced_fields:
  "trace (as_unforced t s) = trace s"
  "channel (as_unforced t s) = channel s"
  "gattServer (as_unforced t s) = gattServer s"
  "info (as_unforced t s) = info s"
  "now (as_unforced t s) = now s"
  "listeners (as_unforced t s) = listeners s"
  "timers (as_unforced t s) = timers s"
  "waiters (as_unforced t s) = waiters s"
  by (simp_all add: as_unforced_def split: option.splits prod.splits call.splits)

lemma as_unforced_phase:
  "map_option snd (tasks (as_unforced t s) u) = map_option snd (tasks s u)"
  by (cases "tasks s t") (auto simp: as_unforced_def split: call.splits)

lemma head_waiter_begins:
  "tasks s t = Some (c, ph) \<Longrightarrow>
   tasks (acquire_next (t # ws) s) t =
     Some (c, if channel s = None then Done (Rejected (Error ''Channel is closed''))
              else Sleeping (now s + packetIntervalMs s))"
  by (cases "channel s = None")
     (simp_all add: tasks_acquire_next_closed tasks_acquire_next_open set_phase_tasks)

lemma contended_fields:
  "tasks pending 4 = None"
  "packetIntervalMs pending = 10"
  "tasks contended_sleeping 4 = Some (SendRaw [9] True, Sleeping 20)"
  "now contended_sleeping = 20"
  "channel contended_sleeping = Some sample_characteristic"
  "holder contended_sleeping = Some 2"
  "trace contended_writing = trace contended_sleeping @ [WriteValueWithoutResponse [9]]"
  "tasks contended_writing 4 = Some (SendRaw [9] True, Writing)"
  "holder contended_writing = Some 2"
proof -
  have p: "tasks pending 4 = None"
    by (simp add: pending_def run_def invoke_def callback_start_def Let_def linked_fields
          uses_mutex_def send_begin_def set_phase_def sleep_done_def write_done_def emit_def
          sample_packet_def)
  have eq: "contended_sleeping =
      run sample_ext [Call 2 (SendPacketWaitResponse sample_packet None), CallbackStart 2,
        Advance 10, SleepDone 2, WriteDone 2 True, Call 4 (SendRaw [9] True), Advance 10] linked"
    by (simp add: contended_sleeping_def contended_sleeping_acts_def pending_acts_def linked_def
          run_def)
  have cs: "tasks contended_sleeping 4 = Some (SendRaw [9] True, Sleeping 20)"
    "now contended_sleeping = 20"
    "channel contended_sleeping = Some sample_characteristic"
    "holder contended_sleeping = Some 2"
    unfolding eq
    by (simp_all add: run_def invoke_def callback_start_def Let_def linked_fields uses_mutex_def
          send_begin_def set_phase_def sleep_done_def write_done_def emit_def sample_packet_def)
  have eq2: "contended_writing = step sample_ext (SleepDone 4) contended_sleeping"
    by (simp add: contended_writing_def contended_writing_acts_def contended_sleeping_def run_def)
  show "tasks pending 4 = None" by (rule p)
  show "packetIntervalMs pending = 10"
    by (simp add: pending_def run_def invoke_def callback_start_def Let_def linked_fields
          uses_mutex_def send_begin_def set_phase_def sleep_done_def write_done_def emit_def
          sample_packet_def)
  show "tasks contended_sleeping 4 = Some (SendRaw [9] True, Sleeping 20)"
    "now contended_sleeping = 20"
    "channel contended_sleeping = Some sample_characteristic"
    "holder contended_sleeping = Some 2"
    by (rule cs)+
  show "trace contended_writing = trace contended_sleeping @ [WriteValueWithoutResponse [9]]"
    "tasks contended_writing 4 = Some (SendRaw [9] True, Writing)"
    "holder contended_writing = Some 2"
    unfolding eq2 by (simp_all add: sleep_done_def cs set_phase_def emit_def wire_bytes_def)
qed

lemma admitted_fields:
  "tasks linked 4 = None"
  "admitted = step sample_ext (Call 4 (SendRaw [9] False)) linked"
  "tasks admitted 4 = Some (SendRaw [9] False, Admitted)"
  "holder admitted = Some 4"
  "channel admitted = Some sample_characteristic"
  "now admitted = 0"
  "packetIntervalMs admitted = 10"
proof -
  show l: "tasks linked 4 = None" by (simp add: linked_fields)
  show eq: "admitted = step sample_ext (Call 4 (SendRaw [9] False)) linked"
    by (simp add: admitted_def admitted_acts_def linked_def run_def)
  show "tasks admitted 4 = Some (SendRaw [9] False, Admitted)"
    "holder admitted = Some 4"
    "channel admitted = Some sample_characteristic"
    "now admitted = 0"
    "packetIntervalMs admitted = 10"
    unfolding eq
    by (simp_all add: invoke_def Let_def linked_fields uses_mutex_def set_phase_def)
qed

text \<open>
  C9. A sendRaw call with force = true starts send in the call itself, whoever holds the
  mutex and whoever waits; with force = false it takes the free mutex and starts send when
  its callback starts, or joins the queue and starts send when the mutex is handed to it.
  From there the two are the same closure: Channel is closed when the channel is unset; the
  sleep until packetIntervalMs has passed; then the write of the bytes; then the
  rawpacketsent event and the return. Only the non-forced call holds the mutex meanwhile and
  releases it at the end. With the mutex free, the run of the non-forced call (its callback
  started at once) equals the run of the forced call under the same actions, up to the flag
  of the call and the holder of the mutex.
\<close>

theorem sendRaw_force_skips_only_the_mutex:
  "s = run ext acts (init n) \<Longrightarrow>
   (tasks s t = None \<longrightarrow>
      (let forced = step ext (Call t (SendRaw d True)) s;
           unforced = step ext (Call t (SendRaw d False)) s
       in holder forced = holder s \<and> waiters forced = waiters s \<and> trace forced = trace s \<and>
          tasks forced t =
            Some (SendRaw d True,
                  if channel s = None then Done (Rejected (Error ''Channel is closed''))
                  else Sleeping (now s + packetIntervalMs s)) \<and>
          trace unforced = trace s \<and>
          (holder s = None \<longrightarrow>
             holder unforced = Some t \<and> waiters unforced = waiters s \<and>
             tasks unforced t = Some (SendRaw d False, Admitted)) \<and>
          (holder s \<noteq> None \<longrightarrow>
             holder unforced = holder s \<and> waiters unforced = waiters s @ [t] \<and>
             tasks unforced t = Some (SendRaw d False, Queued)) \<and>
          (holder s = None \<and> (\<forall>a \<in> set rest. own t a) \<longrightarrow>
             run ext (CallbackStart t # rest) unforced = as_unforced t (run ext rest forced)))) \<and>
   (tasks s t = Some (SendRaw d False, Admitted) \<longrightarrow>
      (let s' = step ext (CallbackStart t) s in
         trace s' = trace s \<and>
         tasks s' t =
           Some (SendRaw d False,
                 if channel s = None then Done (Rejected (Error ''Channel is closed''))
                 else Sleeping (now s + packetIntervalMs s)))) \<and>
   (tasks s t = Some (SendRaw d False, Queued) \<longrightarrow>
      tasks (acquire_next (t # ws) s) t =
        Some (SendRaw d False,
              if channel s = None then Done (Rejected (Error ''Channel is closed''))
              else Sleeping (now s + packetIntervalMs s))) \<and>
   (tasks s t = Some (SendRaw d f, Sleeping wake) \<longrightarrow>
      (now s < wake \<longrightarrow> step ext (SleepDone t) s = s) \<and>
      (wake \<le> now s \<longrightarrow>
         (let s' = step ext (SleepDone t) s in
            (channel s = None \<longrightarrow>
               tasks s' t = Some (SendRaw d f, Done (Rejected TypeError)) \<and> trace s' = trace s) \<and>
            (channel s \<noteq> None \<longrightarrow>
               tasks s' t = Some (SendRaw d f, Writing) \<and>
               trace s' = trace s @ [WriteValueWithoutResponse d] \<and>
               holder s' = holder s \<and> waiters s' = waiters s)))) \<and>
   (tasks s t = Some (SendRaw d f, Writing) \<longrightarrow>
      (let s' = step ext (WriteDone t True) s in
         tasks s' t = Some (SendRaw d f, Done Returned) \<and>
         trace s' = trace s @ [Dispatch (RawPacketSentEvent d)] \<and>
         (f \<longrightarrow> holder s' = holder s \<and> waiters s' = waiters s) \<and>
         (\<not> f \<longrightarrow> holder s = Some t \<and> holder s' \<noteq> Some t)))"
proof (intro conjI impI)
  assume r: "s = run ext acts (init n)"
  have w: "coherent s" using r coherent_reachable by simp
  then have mi: "mutex_inv s" by (simp add: coherent_def)
  {
    assume tn: "tasks s t = None"
    let ?T = "step ext (Call t (SendRaw d True)) s"
    let ?F = "step ext (Call t (SendRaw d False)) s"
    have T: "holder ?T = holder s \<and> waiters ?T = waiters s \<and> trace ?T = trace s \<and>
          tasks ?T t =
            Some (SendRaw d True,
                  if channel s = None then Done (Rejected (Error ''Channel is closed''))
                  else Sleeping (now s + packetIntervalMs s))"
      using tn by (simp add: invoke_def Let_def uses_mutex_def send_begin_def set_phase_tasks)
    have F0: "trace ?F = trace s"
      using tn by (simp add: invoke_def Let_def uses_mutex_def)
    have F1: "holder s = None \<longrightarrow>
             holder ?F = Some t \<and> waiters ?F = waiters s \<and>
             tasks ?F t = Some (SendRaw d False, Admitted)"
      using tn by (simp add: invoke_def Let_def uses_mutex_def set_phase_tasks)
    have F2: "holder s \<noteq> None \<longrightarrow>
             holder ?F = holder s \<and> waiters ?F = waiters s @ [t] \<and>
             tasks ?F t = Some (SendRaw d False, Queued)"
      using tn by (auto simp: invoke_def Let_def uses_mutex_def)
    have S: "holder s = None \<and> (\<forall>a \<in> set rest. own t a) \<longrightarrow>
             run ext (CallbackStart t # rest) ?F = as_unforced t (run ext rest ?T)"
    proof
      assume h: "holder s = None \<and> (\<forall>a \<in> set rest. own t a)"
      then have emp: "waiters s = []" using mi by (simp add: mutex_inv_def)
      note c = forced_alone_call [OF tn conjunct1 [OF h] emp, of d ext]
      note u = forced_alone_run [OF conjunct1 [OF c] conjunct2 [OF h], of ext]
      have "run ext (CallbackStart t # rest) ?F = run ext rest (step ext (CallbackStart t) ?F)"
        by (simp add: run_def)
      then show "run ext (CallbackStart t # rest) ?F = as_unforced t (run ext rest ?T)"
        using c u by simp
    qed
    show "let forced = step ext (Call t (SendRaw d True)) s;
           unforced = step ext (Call t (SendRaw d False)) s
       in holder forced = holder s \<and> waiters forced = waiters s \<and> trace forced = trace s \<and>
          tasks forced t =
            Some (SendRaw d True,
                  if channel s = None then Done (Rejected (Error ''Channel is closed''))
                  else Sleeping (now s + packetIntervalMs s)) \<and>
          trace unforced = trace s \<and>
          (holder s = None \<longrightarrow>
             holder unforced = Some t \<and> waiters unforced = waiters s \<and>
             tasks unforced t = Some (SendRaw d False, Admitted)) \<and>
          (holder s \<noteq> None \<longrightarrow>
             holder unforced = holder s \<and> waiters unforced = waiters s @ [t] \<and>
             tasks unforced t = Some (SendRaw d False, Queued)) \<and>
          (holder s = None \<and> (\<forall>a \<in> set rest. own t a) \<longrightarrow>
             run ext (CallbackStart t # rest) unforced = as_unforced t (run ext rest forced))"
      unfolding Let_def using T F0 F1 F2 S by blast
  }
  {
    assume tk: "tasks s t = Some (SendRaw d False, Admitted)"
    have nw: "t \<notin> set (waiters s)" using waiting_not_in_section [OF w tk] by simp
    have "tasks (settle t out s) t = Some (SendRaw d False, Done out)" for out
      using tk nw by (rule tasks_settle_self)
    then show "let s' = step ext (CallbackStart t) s in
         trace s' = trace s \<and>
         tasks s' t =
           Some (SendRaw d False,
                 if channel s = None then Done (Rejected (Error ''Channel is closed''))
                 else Sleeping (now s + packetIntervalMs s))"
      using tk by (simp add: callback_start_unfold [OF tk] Let_def set_phase_tasks)
  }
  {
    assume "tasks s t = Some (SendRaw d False, Queued)"
    then show "tasks (acquire_next (t # ws) s) t =
        Some (SendRaw d False,
              if channel s = None then Done (Rejected (Error ''Channel is closed''))
              else Sleeping (now s + packetIntervalMs s))"
      by (rule head_waiter_begins)
  }
  {
    assume tk: "tasks s t = Some (SendRaw d f, Sleeping wake)"
    {
      assume "now s < wake"
      then show "step ext (SleepDone t) s = s" using tk by (simp add: sleep_done_def)
    }
    assume le: "wake \<le> now s"
    have nw: "t \<notin> set (waiters s)" using waiting_not_in_section [OF w tk] by simp
    have "tasks (settle t out s) t = Some (SendRaw d f, Done out)" for out
      using tk nw by (rule tasks_settle_self)
    then show "let s' = step ext (SleepDone t) s in
            (channel s = None \<longrightarrow>
               tasks s' t = Some (SendRaw d f, Done (Rejected TypeError)) \<and> trace s' = trace s) \<and>
            (channel s \<noteq> None \<longrightarrow>
               tasks s' t = Some (SendRaw d f, Writing) \<and>
               trace s' = trace s @ [WriteValueWithoutResponse d] \<and>
               holder s' = holder s \<and> waiters s' = waiters s)"
      using tk le
      by (cases "channel s") (simp_all add: sleep_done_def Let_def set_phase_tasks wire_bytes_def)
  }
  {
    assume tk: "tasks s t = Some (SendRaw d f, Writing)"
    let ?s1 = "emit [Dispatch (RawPacketSentEvent d)] s"
    have st: "step ext (WriteDone t True) s = settle t Returned ?s1"
      using tk by (simp add: write_done_def Let_def wire_bytes_def)
    have tk1: "tasks ?s1 t = Some (SendRaw d f, Writing)" using tk by simp
    have nw: "t \<notin> set (waiters ?s1)" using waiting_not_in_section [OF w tk] by simp
    have a: "tasks (settle t Returned ?s1) t = Some (SendRaw d f, Done Returned)"
      using tk1 nw by (rule tasks_settle_self)
    have b: "f \<longrightarrow> holder (settle t Returned ?s1) = holder s \<and>
                   waiters (settle t Returned ?s1) = waiters s"
      using settle_gate_unused [OF tk1, of Returned] by (simp add: uses_mutex_def)
    have c: "\<not> f \<longrightarrow> holder s = Some t \<and> holder (settle t Returned ?s1) \<noteq> Some t"
    proof
      assume nf: "\<not> f"
      then have um: "uses_mutex (SendRaw d f)" by (simp add: uses_mutex_def)
      have "in_critical s t" using tk um by (simp add: in_critical_def)
      then have h: "holder s = Some t" using mi by (simp add: mutex_inv_def)
      have "holder (settle t Returned ?s1) \<noteq> Some t"
        using settle_gate [OF tk1 um, of Returned] nw by (auto split: list.splits)
      then show "holder s = Some t \<and> holder (settle t Returned ?s1) \<noteq> Some t"
        using h by simp
    qed
    show "let s' = step ext (WriteDone t True) s in
         tasks s' t = Some (SendRaw d f, Done Returned) \<and>
         trace s' = trace s @ [Dispatch (RawPacketSentEvent d)] \<and>
         (f \<longrightarrow> holder s' = holder s \<and> waiters s' = waiters s) \<and>
         (\<not> f \<longrightarrow> holder s = Some t \<and> holder s' \<noteq> Some t)"
      unfolding st Let_def using a b c by simp
  }
qed

theorem sendRaw_force_skips_only_the_mutex_witness:
  "tasks pending 4 = None \<and> holder pending = Some 2 \<and> channel pending \<noteq> None \<and>
   tasks (step sample_ext (Call 4 (SendRaw [9] True)) pending) 4 =
     Some (SendRaw [9] True, Sleeping 20) \<and>
   holder (step sample_ext (Call 4 (SendRaw [9] True)) pending) = Some 2 \<and>
   tasks (step sample_ext (Call 4 (SendRaw [9] False)) pending) 4 =
     Some (SendRaw [9] False, Queued) \<and>
   waiters (step sample_ext (Call 4 (SendRaw [9] False)) pending) = [4] \<and>
   tasks linked 4 = None \<and> holder linked = None \<and>
   own 4 (Advance 10) \<and> own 4 (SleepDone 4) \<and> own 4 (WriteDone 4 True) \<and>
   tasks admitted 4 = Some (SendRaw [9] False, Admitted) \<and>
   run sample_ext [CallbackStart 4, Advance 10, SleepDone 4, WriteDone 4 True] admitted =
     as_unforced 4 (run sample_ext [Advance 10, SleepDone 4, WriteDone 4 True]
                      (step sample_ext (Call 4 (SendRaw [9] True)) linked)) \<and>
   tasks (step sample_ext (CallbackStart 4) admitted) 4 =
     Some (SendRaw [9] False, Sleeping 10) \<and>
   tasks overdue 3 = Some (SendRaw [9] False, Queued) \<and>
   tasks (acquire_next [3] overdue) 3 = Some (SendRaw [9] False, Sleeping 1020) \<and>
   tasks contended_sleeping 4 = Some (SendRaw [9] True, Sleeping 20) \<and>
   now contended_sleeping = 20 \<and>
   tasks (step sample_ext (SleepDone 4) contended_sleeping) 4 = Some (SendRaw [9] True, Writing) \<and>
   trace (step sample_ext (SleepDone 4) contended_sleeping) =
     trace contended_sleeping @ [WriteValueWithoutResponse [9]] \<and>
   tasks contended_writing 4 = Some (SendRaw [9] True, Writing) \<and>
   tasks (step sample_ext (WriteDone 4 True) contended_writing) 4 =
     Some (SendRaw [9] True, Done Returned) \<and>
   trace (step sample_ext (WriteDone 4 True) contended_writing) =
     trace contended_writing @ [Dispatch (RawPacketSentEvent [9])] \<and>
   holder (step sample_ext (WriteDone 4 True) contended_writing) = Some 2"
proof -
  note t1 = sendRaw_force_skips_only_the_mutex
              [OF pending_reachable, of 4 "[9]" "[]", unfolded Let_def]
  note t2 = sendRaw_force_skips_only_the_mutex
              [OF linked_def, of 4 "[9]" "[Advance 10, SleepDone 4, WriteDone 4 True]",
               unfolded Let_def]
  note t3 = sendRaw_force_skips_only_the_mutex [OF admitted_def, of 4 "[9]", unfolded Let_def]
  note t4 = sendRaw_force_skips_only_the_mutex
              [OF overdue_def, of 3 "[9]" "[]" "[]", unfolded Let_def]
  note t5 = sendRaw_force_skips_only_the_mutex
              [OF contended_sleeping_def, of 4 "[9]" "[]" "[]" True 20, unfolded Let_def]
  note t6 = sendRaw_force_skips_only_the_mutex
              [OF contended_writing_def, of 4 "[9]" "[]" "[]" True, unfolded Let_def]
  have p: "tasks pending 4 = None" "holder pending = Some 2" "channel pending \<noteq> None"
    "now pending + packetIntervalMs pending = 20"
    by (simp_all add: contended_fields pending_fields)
  have hp: "holder pending \<noteq> None" using p(2) by simp
  have a1: "tasks (step sample_ext (Call 4 (SendRaw [9] True)) pending) 4 =
      Some (SendRaw [9] True,
            if channel pending = None then Done (Rejected (Error ''Channel is closed''))
            else Sleeping (now pending + packetIntervalMs pending))"
    "holder (step sample_ext (Call 4 (SendRaw [9] True)) pending) = holder pending"
    using t1 p(1) by blast+
  have a2: "tasks (step sample_ext (Call 4 (SendRaw [9] False)) pending) 4 =
      Some (SendRaw [9] False, Queued)"
    "waiters (step sample_ext (Call 4 (SendRaw [9] False)) pending) = waiters pending @ [4]"
    using t1 p(1) hp by blast+
  have l: "tasks linked 4 = None" "holder linked = None" by (simp_all add: linked_fields)
  have o: "own 4 (Advance 10)" "own 4 (SleepDone 4)" "own 4 (WriteDone 4 True)"
    by (simp_all add: own_def)
  then have o': "\<forall>a \<in> set [Advance 10, SleepDone 4, WriteDone 4 True]. own 4 a" by simp
  have b: "run sample_ext [CallbackStart 4, Advance 10, SleepDone 4, WriteDone 4 True]
             (step sample_ext (Call 4 (SendRaw [9] False)) linked) =
     as_unforced 4 (run sample_ext [Advance 10, SleepDone 4, WriteDone 4 True]
                      (step sample_ext (Call 4 (SendRaw [9] True)) linked))"
    using t2 l o' by blast
  have ad: "tasks admitted 4 = Some (SendRaw [9] False, Admitted)"
    by (rule admitted_fields)
  have c: "tasks (step sample_ext (CallbackStart 4) admitted) 4 =
      Some (SendRaw [9] False,
            if channel admitted = None then Done (Rejected (Error ''Channel is closed''))
            else Sleeping (now admitted + packetIntervalMs admitted))"
    using t3 ad by blast
  have q: "tasks overdue 3 = Some (SendRaw [9] False, Queued)" by (rule overdue_fields)
  have d: "tasks (acquire_next [3] overdue) 3 =
      Some (SendRaw [9] False,
            if channel overdue = None then Done (Rejected (Error ''Channel is closed''))
            else Sleeping (now overdue + packetIntervalMs overdue))"
    using t4 q by blast
  have cs: "tasks contended_sleeping 4 = Some (SendRaw [9] True, Sleeping 20)"
    "(20::nat) \<le> now contended_sleeping" "channel contended_sleeping \<noteq> None"
    by (simp_all add: contended_fields)
  have e: "tasks (step sample_ext (SleepDone 4) contended_sleeping) 4 = Some (SendRaw [9] True, Writing)"
    "trace (step sample_ext (SleepDone 4) contended_sleeping) =
       trace contended_sleeping @ [WriteValueWithoutResponse [9]]"
    using t5 cs by blast+
  have cw: "tasks contended_writing 4 = Some (SendRaw [9] True, Writing)"
    by (rule contended_fields)
  have g: "tasks (step sample_ext (WriteDone 4 True) contended_writing) 4 =
      Some (SendRaw [9] True, Done Returned)"
    "trace (step sample_ext (WriteDone 4 True) contended_writing) =
       trace contended_writing @ [Dispatch (RawPacketSentEvent [9])]"
    "holder (step sample_ext (WriteDone 4 True) contended_writing) = holder contended_writing"
    using t6 cw by blast+
  have a1': "tasks (step sample_ext (Call 4 (SendRaw [9] True)) pending) 4 =
      Some (SendRaw [9] True, Sleeping 20)"
    "holder (step sample_ext (Call 4 (SendRaw [9] True)) pending) = Some 2"
    using a1 p by simp_all
  have a2': "waiters (step sample_ext (Call 4 (SendRaw [9] False)) pending) = [4]"
    using a2(2) by (simp add: pending_fields)
  have b': "run sample_ext [CallbackStart 4, Advance 10, SleepDone 4, WriteDone 4 True] admitted =
     as_unforced 4 (run sample_ext [Advance 10, SleepDone 4, WriteDone 4 True]
                      (step sample_ext (Call 4 (SendRaw [9] True)) linked))"
    using b by (simp only: admitted_fields(2))
  have c': "tasks (step sample_ext (CallbackStart 4) admitted) 4 =
      Some (SendRaw [9] False, Sleeping 10)"
    using c by (simp add: admitted_fields(5,6,7))
  have d': "tasks (acquire_next [3] overdue) 3 = Some (SendRaw [9] False, Sleeping 1020)"
    using d by (simp add: overdue_fields)
  have g': "holder (step sample_ext (WriteDone 4 True) contended_writing) = Some 2"
    using g(3) by (simp add: contended_fields)
  have n: "now contended_sleeping = 20" by (rule contended_fields)
  show ?thesis
    using p(1,2,3) a1' a2(1) a2' l o ad b' c' q d' cs(1) n e cw g(1,2) g'
    by blast
qed

end
